theory Spec2Isabelle
  imports Complex_Main "HOL-Library.Sublist"
begin

section \<open>Python helpers used by the session controller and the agent loop\<close>

text \<open>The line feed character of Python's \<^verbatim>\<open>"\n"\<close>.\<close>

definition nl :: string where
  "nl = [CHR 0x0A]"

text \<open>\<^verbatim>\<open>sep.join(xs)\<close>.\<close>

fun join :: "string \<Rightarrow> string list \<Rightarrow> string" where
  "join sep [] = []"
| "join sep [x] = x"
| "join sep (x # y # ys) = x @ sep @ join sep (y # ys)"

text \<open>\<^verbatim>\<open>sub in s\<close> on strings: \<open>sub\<close> occurs somewhere in \<open>s\<close>.\<close>

fun contains :: "string \<Rightarrow> string \<Rightarrow> bool" where
  "contains sub [] = (sub = [])"
| "contains sub (c # cs) = (prefix sub (c # cs) \<or> contains sub cs)"

text \<open>\<^verbatim>\<open>str(n)\<close> for a non-negative integer.\<close>

definition digit :: "nat \<Rightarrow> char" where
  "digit d = ''0123456789'' ! (d mod 10)"

function str_of_nat :: "nat \<Rightarrow> string" where
  "str_of_nat n = (if n < 10 then [digit n] else str_of_nat (n div 10) @ [digit n])"
  by pat_completeness auto
termination
  by (relation "measure id") auto

declare str_of_nat.simps [simp del]

text \<open>
  Python slicing \<^verbatim>\<open>xs[:j]\<close> for an integer \<open>j\<close>: a negative bound counts from the end,
  and every bound is clamped to the list.
\<close>

definition slice_to :: "'a list \<Rightarrow> int \<Rightarrow> 'a list" where
  "slice_to xs j = (if 0 \<le> j then take (nat j) xs else take (length xs - nat (- j)) xs)"

text \<open>
  Exceptions (subclasses of \<^verbatim>\<open>Exception\<close>) that an action implementation, the completion
  service or the controller itself can raise. \<open>TooLongPromptError\<close>, \<open>LLMError\<close> and
  \<open>EnvException\<close> are the three declared kinds of \<^verbatim>\<open>schema.py\<close>; the last two carry a
  \<^verbatim>\<open>message\<close>. \<open>TimeoutException\<close> is the class declared in \<^verbatim>\<open>environment.py\<close>.
  \<open>KeyError\<close> carries the missing key, a string, and \<open>NameError\<close> the name that is
  not bound. \<open>OtherException\<close> stands for every other exception class and carries
  \<^verbatim>\<open>str(e)\<close>, as the remaining constructors do.
\<close>

datatype exn =
    TooLongPromptError
  | LLMError string
  | EnvException string
  | TypeError string
  | TimeoutException string
  | IndexError string
  | KeyError string
  | AssertionError string
  | NameError string
  | OtherException string

text \<open>\<^verbatim>\<open>str(e)\<close>: the message the exception carries.\<close>

fun str_of_exn :: "exn \<Rightarrow> string" where
  "str_of_exn TooLongPromptError = []"
| "str_of_exn (LLMError m) = m"
| "str_of_exn (EnvException m) = m"
| "str_of_exn (TypeError m) = m"
| "str_of_exn (TimeoutException m) = m"
| "str_of_exn (IndexError m) = m"
| "str_of_exn (KeyError k) = [CHR 0x27] @ k @ [CHR 0x27]"
| "str_of_exn (AssertionError m) = m"
| "str_of_exn (NameError n) = ''name '' @ [CHR 0x27] @ n @ [CHR 0x27] @ '' is not defined''"
| "str_of_exn (OtherException m) = m"

section \<open>Data model\<close>

text \<open>
  The arguments of an action are a \<^verbatim>\<open>dict\<close> when the agent could parse them and the raw
  text otherwise; \<^verbatim>\<open>execute\<close> tests \<^verbatim>\<open>isinstance(action_input, dict)\<close>.
\<close>

datatype action_args = Mapping "(string \<times> string) list" | NotMapping string

record action =
  name :: string
  args :: action_args

record step =
  action :: action
  observation :: string
  timestamp :: real

text \<open>The fields of an \<^verbatim>\<open>ActionInfo\<close> other than its callable.\<close>

record action_info =
  usage :: "(string \<times> string) list"
  is_primitive :: bool

text \<open>The fields of a \<^verbatim>\<open>Trace\<close> other than \<^verbatim>\<open>action_infos\<close>.\<close>

record trace_data =
  steps :: "step list"
  low_level_steps :: "step list"
  task_description :: string

text \<open>
  Modelled from the spec: the implementing callables of the registry
  (\<^verbatim>\<open>low_level_actions.py\<close>, \<^verbatim>\<open>high_level_actions.py\<close>, \<^verbatim>\<open>p2m_actions.py\<close>) are external
  collaborators. A callable receives the keyword arguments of the action, the path of its
  log file and the trace handle; it returns an observation or raises, and the only part of
  the trace it writes is \<open>low_level_steps\<close> (the spec: steps are appended only by the
  controller's \<^verbatim>\<open>execute\<close>; low-level steps record the primitive executions underneath an
  action). The static keyword arguments are the same in every call and are left inside
  the callable. Of the trace handle a callable is given the fields other than
  \<^verbatim>\<open>action_infos\<close>: a callable is a function of the trace, and the trace holds the
  callables.
\<close>

type_synonym tool =
  "(string \<times> string) list \<Rightarrow> string \<Rightarrow> trace_data \<Rightarrow> (exn + string) \<times> step list"

text \<open>An \<^verbatim>\<open>ActionInfo\<close>, with its callable \<^verbatim>\<open>function\<close>.\<close>

record registered = action_info +
  func :: tool

text \<open>
  A \<^verbatim>\<open>Trace\<close>. Its \<^verbatim>\<open>action_infos\<close> is the registry of the environment, in insertion
  order.
\<close>

record trace = trace_data +
  action_infos :: "(string \<times> registered) list"

text \<open>The command-line arguments that the controller reads.\<close>

record config =
  max_steps :: int
  max_time :: int
  log_dir :: string
  resume :: "string option"
  resume_step :: int

text \<open>
  The state of an \<^verbatim>\<open>Environment\<close> object. \<open>env_action_infos\<close> is the dictionary
  \<^verbatim>\<open>_action_infos\<close> in insertion order; \<open>trace_json\<close> is the content of the durable
  \<^verbatim>\<open>trace.json\<close> after the last \<^verbatim>\<open>save\<close>.
\<close>

record env =
  env_args :: config
  env_research_problem :: string
  env_read_only_files :: "string list"
  env_action_infos :: "(string \<times> registered) list"
  env_trace :: trace
  env_start_time :: real
  trace_json :: "trace option"

section \<open>Initialisation: read-only files\<close>

text \<open>
  \<^verbatim>\<open>fnmatch.fnmatch(name, pat)\<close> on POSIX, for patterns built from \<^verbatim>\<open>*\<close> (any run of
  characters), \<^verbatim>\<open>?\<close> (any one character) and literal characters. Bracket expressions
  are not modelled: the controller's only pattern is the one character \<^verbatim>\<open>*\<close>.
\<close>

fun fnmatch :: "string \<Rightarrow> string \<Rightarrow> bool" where
  "fnmatch [] [] = True"
| "fnmatch (c # cs) [] = False"
| "fnmatch [] (p # ps) = (p = CHR ''*'' \<and> fnmatch [] ps)"
| "fnmatch (c # cs) (p # ps) =
     (if p = CHR ''*'' then fnmatch (c # cs) ps \<or> fnmatch cs (p # ps)
      else (p = CHR ''?'' \<or> p = c) \<and> fnmatch cs ps)"

text \<open>\<^verbatim>\<open>os.path.join(a, b)\<close> on POSIX, for two components.\<close>

definition path_join :: "string \<Rightarrow> string \<Rightarrow> string" where
  "path_join a b =
     (if prefix ''/'' b then b
      else if a = [] \<or> suffix ''/'' a then a @ b
      else a @ ''/'' @ b)"

text \<open>
  The default of \<^verbatim>\<open>_initialize_env\<close>: \<^verbatim>\<open>can_modify_files = '*'\<close>, a string, which the
  loop \<^verbatim>\<open>for not_ignore in can_modify_files\<close> iterates character by character.
\<close>

definition can_modify_files :: string where
  "can_modify_files = ''*''"

text \<open>
  The read-only part of \<^verbatim>\<open>_initialize_env\<close>. The argument is what \<^verbatim>\<open>os.walk\<close> yields,
  one pair per directory: its path relative to the workspace and the names of its files.
  The inner loop extends the list once per pattern; the outer loop runs once per
  directory.
\<close>

definition ignore_filenames :: "string list \<Rightarrow> string \<Rightarrow> string list" where
  "ignore_filenames filenames not_ignore = filter (\<lambda>n. \<not> fnmatch n not_ignore) filenames"

definition read_only_of_dir :: "string \<Rightarrow> string \<Rightarrow> string list \<Rightarrow> string list" where
  "read_only_of_dir patterns relpath files =
     (let filenames = map (\<lambda>filename. path_join relpath filename) files
      in concat (map (\<lambda>not_ignore. ignore_filenames filenames [not_ignore]) patterns))"

definition initialize_read_only :: "(string \<times> string list) list \<Rightarrow> string list" where
  "initialize_read_only walk =
     concat (map (\<lambda>(relpath, files). read_only_of_dir can_modify_files relpath files) walk)"

section \<open>Initialisation: the trace\<close>

text \<open>The truth value of \<^verbatim>\<open>args.resume\<close>: neither \<^verbatim>\<open>None\<close> nor the empty string.\<close>

definition resuming :: "config \<Rightarrow> bool" where
  "resuming cfg = (case resume cfg of None \<Rightarrow> False | Some dir \<Rightarrow> dir \<noteq> [])"

text \<open>
  \<^verbatim>\<open>_initialize_trace\<close>. When resuming, \<open>prev_trace\<close> is the deserialised
  \<^verbatim>\<open>trace.json\<close> of the earlier run; \<^verbatim>\<open>steps[-1]\<close> raises \<^verbatim>\<open>IndexError\<close> on an empty
  list. \<open>infos\<close> is \<^verbatim>\<open>self.action_infos\<close>, the registry itself, and the task
  description is that of the new session.
\<close>

definition initialize_trace ::
  "config \<Rightarrow> (string \<times> registered) list \<Rightarrow> string \<Rightarrow> trace \<Rightarrow> exn + trace" where
  "initialize_trace cfg infos research_problem prev_trace =
     (if resuming cfg then
        (let steps' = slice_to (steps prev_trace) (resume_step cfg + 1)
         in if steps' = [] then Inl (IndexError ''list index out of range'')
            else
              (let t = timestamp (last steps');
                   low_level_steps' = filter (\<lambda>s. timestamp s < t) (low_level_steps prev_trace)
               in Inr \<lparr>steps = steps', low_level_steps = low_level_steps',
                       task_description = research_problem, action_infos = infos\<rparr>))
      else
        Inr \<lparr>steps = [], low_level_steps = [],
             task_description = research_problem, action_infos = infos\<rparr>)"


section \<open>The session controller: \<^verbatim>\<open>is_final\<close>, \<^verbatim>\<open>execute\<close>, \<^verbatim>\<open>save\<close>\<close>

text \<open>
  The wall clock is an input: \<open>t_final\<close> is what \<^verbatim>\<open>time.time()\<close> returns inside
  \<^verbatim>\<open>is_final\<close>, \<open>t_step\<close> what it returns when the step is stamped.
\<close>

record readings =
  t_final :: real
  t_step :: real

definition is_final :: "env \<Rightarrow> real \<Rightarrow> bool" where
  "is_final e now =
     (let curr_step = int (length (steps (env_trace e)));
          any_final_answer =
            list_ex (\<lambda>s. name (action s) = ''Final Answer'') (steps (env_trace e))
      in curr_step \<ge> max_steps (env_args e) \<or> any_final_answer
         \<or> now - env_start_time e > real_of_int (max_time (env_args e)))"

definition shut_down_observation :: string where
  "shut_down_observation =
     ''The environment has shut down because the maximum number of steps or time has been reached. Please submit your final answer.''"

definition invalid_action_observation :: "string \<Rightarrow> string list \<Rightarrow> string" where
  "invalid_action_observation action_name keys =
     ''Invalid action: '' @ action_name
       @ ''. Action did not execute. Please use one of the following actions:'' @ nl
       @ join '', '' keys"

definition usage_text :: "(string \<times> string) list \<Rightarrow> string" where
  "usage_text u =
     (let body = join ('','' @ nl @ ''            '') (map (\<lambda>(k, v). k @ '': ['' @ v @ '']'') u)
      in ''{'' @ nl @ ''            '' @ body @ nl @ ''}'')"

definition invalid_action_error :: "string \<Rightarrow> (string \<times> string) list \<Rightarrow> string" where
  "invalid_action_error action_name u =
     ''The action input for '' @ action_name
       @ '' needs to be a valid json with proper entries. You may have missed the comma between entries. Please use the correct format and try again:''
       @ nl @ usage_text u"

text \<open>\<^verbatim>\<open>self._log_dir\<close>, set in \<^verbatim>\<open>__init__\<close>.\<close>

definition env_log_dir :: "env \<Rightarrow> string" where
  "env_log_dir e = path_join (log_dir (env_args e)) ''env_log''"

definition tool_log_file :: "string \<Rightarrow> nat \<Rightarrow> string" where
  "tool_log_file dir curr_step =
     path_join (path_join dir ''tool_logs'') (''step_'' @ str_of_nat curr_step @ ''_tool_log.log'')"

text \<open>
  The \<^verbatim>\<open>except\<close> clauses of \<^verbatim>\<open>execute\<close>, in their order: \<open>Inr\<close> is the observation
  the exception is turned into, \<open>Inl\<close> the exception that leaves \<^verbatim>\<open>execute\<close>.
\<close>

fun normalize :: "string \<Rightarrow> string \<Rightarrow> exn \<Rightarrow> exn + string" where
  "normalize action_name hint TooLongPromptError = Inr ''EnvError: too long input for the tool''"
| "normalize action_name hint (LLMError m) = Inr (''LLMError: '' @ m)"
| "normalize action_name hint (EnvException m) = Inr (''EnvError: '' @ m)"
| "normalize action_name hint (TypeError m) = Inr (''EnvError: '' @ hint)"
| "normalize action_name hint (TimeoutException m) = Inl (TimeoutException m)"
| "normalize action_name hint e =
     (if contains ''Connection aborted.'' (str_of_exn e)
      then Inl (OtherException ''Connection aborted for crfm'')
      else Inr (''EnvError: Error executing '' @ action_name @ ''.''))"

text \<open>
  \<^verbatim>\<open>save\<close> writes the trace to \<^verbatim>\<open>trace.json\<close> (and copies the workspace, which is not
  part of this model).
\<close>

definition save :: "env \<Rightarrow> env" where
  "save e = e\<lparr>trace_json := Some (env_trace e)\<rparr>"

text \<open>The end of \<^verbatim>\<open>execute\<close>: stamp the step, append it, save.\<close>

definition append_step :: "env \<Rightarrow> action \<Rightarrow> string \<Rightarrow> real \<Rightarrow> env" where
  "append_step e a obs step_time =
     save (e\<lparr>env_trace := (env_trace e)
       \<lparr>steps := steps (env_trace e)
          @ [\<lparr>action = a, observation = obs, timestamp = step_time\<rparr>]\<rparr>\<rparr>)"

text \<open>
  What a call of \<^verbatim>\<open>execute\<close> gives: the observation it returns or the exception it
  raises, the state it leaves, and the names of the registry entries whose callable it
  invoked.
\<close>

record exec_result =
  outcome :: "exn + string"
  env_after :: env
  invoked :: "string list"

definition observed :: "env \<Rightarrow> action \<Rightarrow> string \<Rightarrow> real \<Rightarrow> string list \<Rightarrow> exec_result" where
  "observed e a obs step_time names =
     \<lparr>outcome = Inr obs, env_after = append_step e a obs step_time, invoked = names\<rparr>"

definition execute :: "env \<Rightarrow> action \<Rightarrow> readings \<Rightarrow> exec_result" where
  "execute e a r =
     (let trace = env_trace e;
          curr_step = length (steps trace);
          action_name = name a;
          action_input = args a
      in if action_name = ''Final Answer'' then observed e a ''end'' (t_step r) []
         else if is_final e (t_final r) then observed e a shut_down_observation (t_step r) []
         else
           (case map_of (env_action_infos e) action_name of
              None \<Rightarrow>
                observed e a
                  (invalid_action_observation action_name (map fst (env_action_infos e)))
                  (t_step r) []
            | Some info \<Rightarrow>
                (let log_file = tool_log_file (env_log_dir e) curr_step;
                     hint = invalid_action_error action_name (usage info)
                 in case action_input of
                      NotMapping raw \<Rightarrow> observed e a hint (t_step r) []
                    | Mapping kwargs \<Rightarrow>
                        (case func info kwargs log_file (trace_data.truncate trace) of
                           (res, low_level_steps') \<Rightarrow>
                             (let e1 = e\<lparr>env_trace := trace\<lparr>low_level_steps := low_level_steps'\<rparr>\<rparr>
                              in case (case res of Inr obs \<Rightarrow> Inr obs
                                                | Inl x \<Rightarrow> normalize action_name hint x) of
                                   Inr obs \<Rightarrow> observed e1 a obs (t_step r) [action_name]
                                 | Inl x \<Rightarrow>
                                     \<lparr>outcome = Inl x, env_after = e1,
                                      invoked = [action_name]\<rparr>)))))"

text \<open>
  A session is a sequence of \<^verbatim>\<open>execute\<close> calls; an exception that leaves \<^verbatim>\<open>execute\<close>
  ends it. The result is that exception, if any, and the last state.
\<close>

fun execute_all :: "env \<Rightarrow> (action \<times> readings) list \<Rightarrow> exn option \<times> env" where
  "execute_all e [] = (None, e)"
| "execute_all e ((a, r) # calls) =
     (case outcome (execute e a r) of
        Inl x \<Rightarrow> (Some x, env_after (execute e a r))
      | Inr obs \<Rightarrow> execute_all (env_after (execute e a r)) calls)"

section \<open>A small session used to evaluate the model\<close>

definition demo_args :: config where
  "demo_args = \<lparr>max_steps = 3, max_time = 18000, log_dir = ''logs'',
                 resume = None, resume_step = 0\<rparr>"

definition raising :: "exn \<Rightarrow> tool" where
  "raising x kwargs log_file tr = (Inl x, low_level_steps tr)"

definition returning :: "string \<Rightarrow> tool" where
  "returning obs kwargs log_file tr = (Inr obs, low_level_steps tr)"

definition demo_entry :: "tool \<Rightarrow> registered" where
  "demo_entry f = \<lparr>usage = [(''script_name'', ''a valid python script name'')],
                    is_primitive = True, func = f\<rparr>"

definition demo_env :: "tool \<Rightarrow> step list \<Rightarrow> env" where
  "demo_env f ss =
     \<lparr>env_args = demo_args, env_research_problem = ''task'', env_read_only_files = [],
      env_action_infos = [(''Execute Script'', demo_entry f)],
      env_trace = \<lparr>steps = ss, low_level_steps = [], task_description = ''task'',
                   action_infos = [(''Execute Script'', demo_entry f)]\<rparr>,
      env_start_time = 0, trace_json = None\<rparr>"

definition run_script :: action where
  "run_script = \<lparr>name = ''Execute Script'', args = Mapping [(''script_name'', ''train.py'')]\<rparr>"

definition clock :: "real \<Rightarrow> readings" where
  "clock t = \<lparr>t_final = t, t_step = t\<rparr>"

definition unknown_tool :: action where
  "unknown_tool = \<lparr>name = ''NoSuchTool'', args = Mapping []\<rparr>"

definition demo_step :: "real \<Rightarrow> step" where
  "demo_step t = \<lparr>action = run_script, observation = ''ok'', timestamp = t\<rparr>"

definition demo_prev :: trace where
  "demo_prev = \<lparr>steps = map demo_step [10, 20, 30, 40, 50],
                 low_level_steps = map demo_step [5, 25, 30, 35],
                 task_description = ''task'', action_infos = []\<rparr>"

definition demo_calls :: "(action \<times> readings) list" where
  "demo_calls = [(run_script, clock 1), (unknown_tool, clock 2), (run_script, clock 2)]"

definition demo_resume_args :: config where
  "demo_resume_args = \<lparr>max_steps = 50, max_time = 18000, log_dir = ''logs'',
                        resume = Some ''logs'', resume_step = 2\<rparr>"

section \<open>The agent control loop: obtaining a valid response\<close>

text \<open>
  \<^verbatim>\<open>s.strip()\<close>: leading and trailing whitespace removed. A character here is a code
  point below 256; these are the ones for which \<^verbatim>\<open>str.isspace\<close> holds.
\<close>

definition is_space :: "char \<Rightarrow> bool" where
  "is_space c =
     (c \<in> set [CHR '' '', CHR 0x09, CHR 0x0A, CHR 0x0B, CHR 0x0C, CHR 0x0D,
                CHR 0x1C, CHR 0x1D, CHR 0x1E, CHR 0x1F, CHR 0x85, CHR 0xA0])"

definition strip :: "string \<Rightarrow> string" where
  "strip s = rev (dropWhile is_space (rev (dropWhile is_space s)))"

text \<open>The arguments that this part of the agent reads.\<close>

record agent_args =
  max_retries :: int
  llm_name :: string

text \<open>
  The parsed fields of a response: the dictionary that \<^verbatim>\<open>parse_entries\<close> returns.
  \<^verbatim>\<open>parse_entries\<close> belongs to the base class \<^verbatim>\<open>Agent\<close> and the completion service to
  \<^verbatim>\<open>reactagent.llm\<close>; both are parameters here, and both may raise.
\<close>

type_synonym entries = "(string \<times> string) list"

type_synonym parser = "string \<Rightarrow> string list \<Rightarrow> exn + entries"

type_synonym completer = "string \<Rightarrow> string \<Rightarrow> exn + string"

text \<open>
  The body of the \<^verbatim>\<open>try\<close> in the retry loop: parse, then
  \<^verbatim>\<open>assert entries["Action"].strip() in self.all_tool_names\<close>.
\<close>

definition parse_and_validate ::
  "parser \<Rightarrow> string list \<Rightarrow> string list \<Rightarrow> string \<Rightarrow> exn + entries" where
  "parse_and_validate parse_entries valid_format_entires all_tool_names completion =
     (case parse_entries completion valid_format_entires of
        Inl x \<Rightarrow> Inl x
      | Inr entries \<Rightarrow>
          (case map_of entries ''Action'' of
             None \<Rightarrow> Inl (KeyError ''Action'')
           | Some a \<Rightarrow>
               if strip a \<in> set all_tool_names then Inr entries
               else Inl (AssertionError [])))"

definition corrective_instruction :: "string list \<Rightarrow> string" where
  "corrective_instruction valid_format_entires =
     nl @ nl
       @ '' Your response was in incorrect format. Please provide a valid response with all entries: ''
       @ join '', '' valid_format_entires @ nl @ nl"

text \<open>
  The loop \<^verbatim>\<open>for _ in range(self.args.max_retries)\<close>, with the number of iterations
  left as first argument. The result is the entries of the first valid response, if any,
  and the prompts sent to the completion service, one per attempt. The bare \<^verbatim>\<open>except\<close>
  catches everything the \<^verbatim>\<open>try\<close> body raises; the call of the completion service is
  outside the \<^verbatim>\<open>try\<close>, so what it raises leaves the loop.
\<close>

fun attempts ::
  "nat \<Rightarrow> completer \<Rightarrow> string \<Rightarrow> parser \<Rightarrow> string list \<Rightarrow> string list \<Rightarrow> string
     \<Rightarrow> (exn + entries option) \<times> string list" where
  "attempts 0 complete_text llm parse_entries fmt tools prompt = (Inr None, [])"
| "attempts (Suc n) complete_text llm parse_entries fmt tools prompt =
     (case complete_text prompt llm of
        Inl x \<Rightarrow> (Inl x, [prompt])
      | Inr completion \<Rightarrow>
          (case parse_and_validate parse_entries fmt tools completion of
             Inr entries \<Rightarrow> (Inr (Some entries), [prompt])
           | Inl x \<Rightarrow>
               (case attempts n complete_text llm parse_entries fmt tools
                       (prompt @ corrective_instruction fmt) of
                  (res, sent) \<Rightarrow> (res, prompt # sent))))"

text \<open>
  How this part of a cycle ends: \<^verbatim>\<open>run\<close> returns a message, or the cycle goes on with
  the entries.
\<close>

datatype response = Return string | Proceed entries

definition get_response ::
  "agent_args \<Rightarrow> completer \<Rightarrow> parser \<Rightarrow> string list \<Rightarrow> string list \<Rightarrow> string
     \<Rightarrow> (exn + response) \<times> string list" where
  "get_response cfg complete_text parse_entries fmt tools prompt =
     (case attempts (nat (max_retries cfg)) complete_text (llm_name cfg) parse_entries
             fmt tools prompt of
        (Inl x, sent) \<Rightarrow> (Inl x, sent)
      | (Inr None, sent) \<Rightarrow> (Inr (Return ''No valid response after max_retries''), sent)
      | (Inr (Some entries), sent) \<Rightarrow> (Inr (Proceed entries), sent))"

section \<open>The agent control loop: summarising a long observation\<close>

text \<open>
  \<^verbatim>\<open>s.split(sep)\<close> for a non-empty separator: the pieces between the occurrences of
  \<open>sep\<close>, found from left to right without overlap. The second argument collects the
  current piece, reversed.
\<close>

function split_acc :: "string \<Rightarrow> string \<Rightarrow> string \<Rightarrow> string list" where
  "split_acc sep acc [] = [rev acc]"
| "split_acc sep acc (c # cs) =
     (if sep \<noteq> [] \<and> prefix sep (c # cs)
      then rev acc # split_acc sep [] (drop (length sep) (c # cs))
      else split_acc sep (c # acc) cs)"
  by pat_completeness auto
termination
  by (relation "measure (\<lambda>(sep, acc, s). length s)") auto

definition split :: "string \<Rightarrow> string \<Rightarrow> string list" where
  "split s sep = split_acc sep [] s"

text \<open>\<^verbatim>\<open>range(0, stop, step)\<close> for a positive step.\<close>

definition range_step :: "nat \<Rightarrow> nat \<Rightarrow> nat list" where
  "range_step stop step = map (\<lambda>k. k * step) [0 ..< (stop + step - 1) div step]"

text \<open>\<^verbatim>\<open>[observation[i:i+bs] for i in range(0, len(observation), bs)]\<close>.\<close>

definition blocks_of :: "nat \<Rightarrow> string \<Rightarrow> string list" where
  "blocks_of bs obs =
     map (\<lambda>i. take bs (drop i obs)) (range_step (length obs) bs)"

definition summary_format :: string where
  "summary_format =
     ''Summarize the observation concisely in this format:'' @ nl
       @ ''[Observation]: Summarize all relevant details in the observation objectively'' @ nl
       @ nl
       @ ''Do not include any result that is guessed rather than directly confirmed by the observation. Do not include additional information or suggestions.''
       @ nl"

definition block_prompt :: "string \<Rightarrow> nat \<Rightarrow> nat \<Rightarrow> string \<Rightarrow> string" where
  "block_prompt action_string bs idx b =
     (let start_line_number = bs * idx + 1;
          end_line_number = bs * idx + 1 + length b
      in nl @ action_string @ nl @ nl
           @ ''The full observation is too long. Given this (partial) observation from character ''
           @ str_of_nat start_line_number @ '' to character '' @ str_of_nat end_line_number
           @ '': '' @ nl @ ''``` '' @ nl @ b @ nl @ ''```'' @ nl @ summary_format)"

definition reduction_prompt :: "string \<Rightarrow> string list \<Rightarrow> string" where
  "reduction_prompt action_string descriptions =
     (let joined = join (nl @ nl) (map (\<lambda>s. ''Segment {idx}: '' @ nl @ nl @ s) descriptions)
      in nl @ action_string @ nl @ nl
           @ ''The full observation is too long. '' @ nl
           @ ''Given summaries for each segments of the whole observation, summarize to get a cohesive description of the entire observation.''
           @ nl @ joined @ nl @ nl @ summary_format)"

text \<open>
  The loop over \<^verbatim>\<open>enumerate(blocks)\<close>: one call of the secondary completion service per
  block. The result is the list of descriptions, or the exception of the call that
  raised, and the prompts sent.
\<close>

fun describe_blocks ::
  "(string \<Rightarrow> exn + string) \<Rightarrow> string \<Rightarrow> nat \<Rightarrow> nat \<Rightarrow> string list
     \<Rightarrow> (exn + string list) \<times> string list" where
  "describe_blocks complete_text_fast action_string bs idx [] = (Inr [], [])"
| "describe_blocks complete_text_fast action_string bs idx (b # rest) =
     (let prompt = block_prompt action_string bs idx b
      in case complete_text_fast prompt of
           Inl x \<Rightarrow> (Inl x, [prompt])
         | Inr completion \<Rightarrow>
             (case describe_blocks complete_text_fast action_string bs (idx + 1) rest of
                (Inl x, sent) \<Rightarrow> (Inl x, prompt # sent)
              | (Inr descriptions, sent) \<Rightarrow> (Inr (completion # descriptions), prompt # sent)))"

text \<open>
  \<^verbatim>\<open>completion.split("[Observation]:")[1]\<close>, and the completion itself when there is no
  second piece.
\<close>

definition extract_observation :: "string \<Rightarrow> string" where
  "extract_observation completion =
     (case split completion ''[Observation]:'' of
        first # second # rest \<Rightarrow> second
      | _ \<Rightarrow> completion)"

text \<open>
  \<^verbatim>\<open>summarize_observation\<close>: the summary or the exception raised, and the prompts sent
  to the secondary completion service, in order.
\<close>

definition summarize_observation ::
  "(string \<Rightarrow> exn + string) \<Rightarrow> string \<Rightarrow> string \<Rightarrow> (exn + string) \<times> string list" where
  "summarize_observation complete_text_fast action_string obs =
     (let bs = 10000;
          blocks = blocks_of bs obs
      in case describe_blocks complete_text_fast action_string bs 0 blocks of
           (Inl x, sent) \<Rightarrow> (Inl x, sent)
         | (Inr descriptions, sent) \<Rightarrow>
             if length descriptions = 1 then (Inr (extract_observation (hd descriptions)), sent)
             else
               (let prompt = reduction_prompt action_string descriptions
                in case complete_text_fast prompt of
                     Inl x \<Rightarrow> (Inl x, sent @ [prompt])
                   | Inr completion \<Rightarrow> (Inr (extract_observation completion), sent @ [prompt])))"

text \<open>
  The part of a cycle of \<^verbatim>\<open>run\<close> between the execution of the action and the
  checkpoint: the observation is summarised when it is longer than 10000.
\<close>

definition summarize_if_long ::
  "(string \<Rightarrow> exn + string) \<Rightarrow> string \<Rightarrow> string \<Rightarrow> (exn + string) \<times> string list" where
  "summarize_if_long complete_text_fast action_string obs =
     (if length obs > 10000
      then summarize_observation complete_text_fast action_string obs
      else (Inr obs, []))"

section \<open>The agent control loop: the history\<close>

record history_step =
  h_step_idx :: nat
  h_action :: entries
  h_observation :: string
  h_feedback :: string

definition parsing_error :: "history_step \<Rightarrow> bool" where
  "parsing_error step = prefix ''ActionInputParsingError'' (h_observation step)"

text \<open>
  The end of a cycle of \<^verbatim>\<open>run\<close>: the cycle is appended to \<^verbatim>\<open>history_steps\<close>, and
  when its observation does not start with the marker, the entries that do are filtered
  out.
\<close>

definition update_history ::
  "history_step list \<Rightarrow> nat \<Rightarrow> entries \<Rightarrow> string \<Rightarrow> string \<Rightarrow> history_step list" where
  "update_history history_steps n_steps entries obs feedback =
     (let appended = history_steps
            @ [\<lparr>h_step_idx = n_steps, h_action = entries, h_observation = obs,
                h_feedback = feedback\<rparr>]
      in if \<not> prefix ''ActionInputParsingError'' obs
         then filter (\<lambda>step. \<not> parsing_error step) appended
         else appended)"

text \<open>
  The names bound where line 187 of \<^verbatim>\<open>run\<close> is evaluated: the names that the module
  \<^verbatim>\<open>agent_research.py\<close> binds (its imports, \<^verbatim>\<open>initial_prompt\<close> and the class) and the
  local variables of \<^verbatim>\<open>run\<close>. No builtin is called \<^verbatim>\<open>fp\<close>; the \<^verbatim>\<open>fp=full_log\<close> of
  line 184 is a keyword argument of \<^verbatim>\<open>json.dump\<close> and binds nothing.
\<close>

definition names_in_scope :: "string list" where
  "names_in_scope =
     [''os'', ''sys'', ''json'', ''anthropic'', ''Path'', ''complete_text_fast'',
      ''complete_text'', ''Action'', ''Agent'', ''format_prompt_dict'', ''initial_prompt'',
      ''ResearchAgent'',
      ''self'', ''env'', ''feedback'', ''full_log'', ''last_steps'', ''last_observation_step'',
      ''curr_step'', ''prompt'', ''relevant_history'', ''idx'', ''action_string'', ''entries'',
      ''valid_response'', ''_'', ''log_file'', ''completion'', ''rg'', ''action'',
      ''raw_action_input'', ''new_research_plan_content'', ''parsing_error'', ''action_input'',
      ''observation'', ''usage'', ''invalid_action_error'', ''full_observation'', ''info'']"

text \<open>Evaluating a name: \<^verbatim>\<open>NameError\<close> when nothing binds it.\<close>

definition load_name :: "string \<Rightarrow> exn + unit" where
  "load_name n = (if n \<in> set names_in_scope then Inr () else Inl (NameError n))"

text \<open>
  The part of a cycle of \<^verbatim>\<open>run\<close> after the checkpoint (lines 176 to 198), once the caller
  has sent the feedback: the cycle is written to \<^verbatim>\<open>full_log\<close> (not part of this model),
  \<^verbatim>\<open>fp.write\<close> is evaluated, and then the history is updated. The result is the new
  history, or the exception that leaves \<^verbatim>\<open>run\<close>.
\<close>

definition after_checkpoint ::
  "history_step list \<Rightarrow> nat \<Rightarrow> entries \<Rightarrow> string \<Rightarrow> string \<Rightarrow> exn + history_step list" where
  "after_checkpoint history_steps n_steps entries obs feedback =
     (case load_name ''fp'' of
        Inl x \<Rightarrow> Inl x
      | Inr u \<Rightarrow> Inr (update_history history_steps n_steps entries obs feedback))"

section \<open>Stubs used to evaluate the agent loop\<close>

definition demo_agent_args :: agent_args where
  "demo_agent_args = \<lparr>max_retries = 5, llm_name = ''claude-v1''\<rparr>"

definition unparsable :: completer where
  "unparsable prompt llm = Inr ''I do not know.''"

definition no_fields :: parser where
  "no_fields completion fmt = Inl (OtherException ''missing entries'')"

definition terse :: "string \<Rightarrow> exn + string" where
  "terse prompt = Inr ''[Observation]: nothing new''"

section \<open>The trace as an object graph: \<^verbatim>\<open>copy.deepcopy\<close>\<close>

text \<open>
  The \<^verbatim>\<open>trace\<close> property returns \<^verbatim>\<open>copy.deepcopy(self._trace)\<close>. What it guarantees
  is about object identity, so here the trace lives in a store. An address is an index
  into the store; an object is a cell whose references are addresses. Strings and numbers
  are immutable and are kept inside the cells. The argument of an action is a reference
  to a dictionary, or the raw string. The dictionary \<^verbatim>\<open>action_infos\<close> maps each name to
  an \<^verbatim>\<open>ActionInfo\<close> object, which refers to its callable, a function object.
\<close>

type_synonym addr = nat

datatype cell =
    CArgs "(string \<times> string) list"
  | CAction string "string + addr"
  | CStep addr string real
  | CList "addr list"
  | CFunc tool
  | CInfo "(string \<times> string) list" bool addr
  | CInfos "(string \<times> addr) list"
  | CTrace addr addr addr string

type_synonym heap = "cell list"

definition lookup :: "heap \<Rightarrow> addr \<Rightarrow> cell option" where
  "lookup h a = (if a < length h then Some (h ! a) else None)"

text \<open>The references that a cell holds.\<close>

fun refs :: "cell \<Rightarrow> addr list" where
  "refs (CArgs d) = []"
| "refs (CAction n (Inl raw)) = []"
| "refs (CAction n (Inr ar)) = [ar]"
| "refs (CStep ac ob ts) = [ac]"
| "refs (CList as) = as"
| "refs (CFunc f) = []"
| "refs (CInfo u p f) = [f]"
| "refs (CInfos kvs) = map snd kvs"
| "refs (CTrace s l i d) = [s, l, i]"

text \<open>
  The value that an address denotes, for each class of the schema; \<open>None\<close> when the
  store does not hold an object of that class there.
\<close>

definition read_args :: "heap \<Rightarrow> addr \<Rightarrow> (string \<times> string) list option" where
  "read_args h a = (case lookup h a of Some (CArgs d) \<Rightarrow> Some d | _ \<Rightarrow> None)"

definition read_action :: "heap \<Rightarrow> addr \<Rightarrow> action option" where
  "read_action h a =
     (case lookup h a of
        Some (CAction n (Inl raw)) \<Rightarrow> Some \<lparr>name = n, args = NotMapping raw\<rparr>
      | Some (CAction n (Inr ar)) \<Rightarrow>
          (case read_args h ar of
             Some d \<Rightarrow> Some \<lparr>name = n, args = Mapping d\<rparr>
           | None \<Rightarrow> None)
      | _ \<Rightarrow> None)"

definition read_step :: "heap \<Rightarrow> addr \<Rightarrow> step option" where
  "read_step h a =
     (case lookup h a of
        Some (CStep ac ob ts) \<Rightarrow>
          (case read_action h ac of
             Some x \<Rightarrow> Some \<lparr>action = x, observation = ob, timestamp = ts\<rparr>
           | None \<Rightarrow> None)
      | _ \<Rightarrow> None)"

fun read_steps :: "heap \<Rightarrow> addr list \<Rightarrow> step list option" where
  "read_steps h [] = Some []"
| "read_steps h (a # as) =
     (case read_step h a of
        None \<Rightarrow> None
      | Some s \<Rightarrow> (case read_steps h as of None \<Rightarrow> None | Some ss \<Rightarrow> Some (s # ss)))"

definition read_list :: "heap \<Rightarrow> addr \<Rightarrow> step list option" where
  "read_list h a = (case lookup h a of Some (CList as) \<Rightarrow> read_steps h as | _ \<Rightarrow> None)"

definition read_func :: "heap \<Rightarrow> addr \<Rightarrow> tool option" where
  "read_func h a = (case lookup h a of Some (CFunc f) \<Rightarrow> Some f | _ \<Rightarrow> None)"

definition read_info :: "heap \<Rightarrow> addr \<Rightarrow> registered option" where
  "read_info h a =
     (case lookup h a of
        Some (CInfo u p f) \<Rightarrow>
          (case read_func h f of
             Some g \<Rightarrow> Some \<lparr>usage = u, is_primitive = p, func = g\<rparr>
           | None \<Rightarrow> None)
      | _ \<Rightarrow> None)"

fun read_entries :: "heap \<Rightarrow> (string \<times> addr) list \<Rightarrow> (string \<times> registered) list option" where
  "read_entries h [] = Some []"
| "read_entries h ((k, a) # kvs) =
     (case read_info h a of
        None \<Rightarrow> None
      | Some v \<Rightarrow>
          (case read_entries h kvs of None \<Rightarrow> None | Some vs \<Rightarrow> Some ((k, v) # vs)))"

definition read_infos :: "heap \<Rightarrow> addr \<Rightarrow> (string \<times> registered) list option" where
  "read_infos h a = (case lookup h a of Some (CInfos kvs) \<Rightarrow> read_entries h kvs | _ \<Rightarrow> None)"

definition read_trace :: "heap \<Rightarrow> addr \<Rightarrow> trace option" where
  "read_trace h a =
     (case lookup h a of
        Some (CTrace s l i d) \<Rightarrow>
          (case read_list h s of
             None \<Rightarrow> None
           | Some ss \<Rightarrow>
               (case read_list h l of
                  None \<Rightarrow> None
                | Some ls \<Rightarrow>
                    (case read_infos h i of
                       None \<Rightarrow> None
                     | Some infos \<Rightarrow>
                         Some \<lparr>steps = ss, low_level_steps = ls, task_description = d,
                               action_infos = infos\<rparr>)))
      | _ \<Rightarrow> None)"

text \<open>
  \<^verbatim>\<open>copy.deepcopy\<close> walks the object graph with a memo from the objects already copied
  to their copies. A new object is a new cell at the end of the store. A function object
  is not copied: \<^verbatim>\<open>copy.deepcopy\<close> returns it as it is, so the copy of an
  \<^verbatim>\<open>ActionInfo\<close> refers to the function object of the original.
\<close>

type_synonym memo = "(addr \<times> addr) list"

definition alloc :: "addr \<Rightarrow> cell \<Rightarrow> heap \<Rightarrow> memo \<Rightarrow> addr \<times> heap \<times> memo" where
  "alloc a c h m = (length h, h @ [c], (a, length h) # m)"

definition copy_args :: "heap \<Rightarrow> memo \<Rightarrow> addr \<Rightarrow> (addr \<times> heap \<times> memo) option" where
  "copy_args h m a =
     (case map_of m a of
        Some a' \<Rightarrow> Some (a', h, m)
      | None \<Rightarrow>
          (case lookup h a of
             Some (CArgs d) \<Rightarrow> Some (alloc a (CArgs d) h m)
           | _ \<Rightarrow> None))"

definition copy_action :: "heap \<Rightarrow> memo \<Rightarrow> addr \<Rightarrow> (addr \<times> heap \<times> memo) option" where
  "copy_action h m a =
     (case map_of m a of
        Some a' \<Rightarrow> Some (a', h, m)
      | None \<Rightarrow>
          (case lookup h a of
             Some (CAction n (Inl raw)) \<Rightarrow> Some (alloc a (CAction n (Inl raw)) h m)
           | Some (CAction n (Inr ar)) \<Rightarrow>
               (case copy_args h m ar of
                  None \<Rightarrow> None
                | Some (ar', h', m') \<Rightarrow> Some (alloc a (CAction n (Inr ar')) h' m'))
           | _ \<Rightarrow> None))"

definition copy_step :: "heap \<Rightarrow> memo \<Rightarrow> addr \<Rightarrow> (addr \<times> heap \<times> memo) option" where
  "copy_step h m a =
     (case map_of m a of
        Some a' \<Rightarrow> Some (a', h, m)
      | None \<Rightarrow>
          (case lookup h a of
             Some (CStep ac ob ts) \<Rightarrow>
               (case copy_action h m ac of
                  None \<Rightarrow> None
                | Some (ac', h', m') \<Rightarrow> Some (alloc a (CStep ac' ob ts) h' m'))
           | _ \<Rightarrow> None))"

fun copy_steps :: "heap \<Rightarrow> memo \<Rightarrow> addr list \<Rightarrow> (addr list \<times> heap \<times> memo) option" where
  "copy_steps h m [] = Some ([], h, m)"
| "copy_steps h m (a # as) =
     (case copy_step h m a of
        None \<Rightarrow> None
      | Some (a', h', m') \<Rightarrow>
          (case copy_steps h' m' as of
             None \<Rightarrow> None
           | Some (as', h'', m'') \<Rightarrow> Some (a' # as', h'', m'')))"

definition copy_list :: "heap \<Rightarrow> memo \<Rightarrow> addr \<Rightarrow> (addr \<times> heap \<times> memo) option" where
  "copy_list h m a =
     (case map_of m a of
        Some a' \<Rightarrow> Some (a', h, m)
      | None \<Rightarrow>
          (case lookup h a of
             Some (CList as) \<Rightarrow>
               (case copy_steps h m as of
                  None \<Rightarrow> None
                | Some (as', h', m') \<Rightarrow> Some (alloc a (CList as') h' m'))
           | _ \<Rightarrow> None))"

definition copy_info :: "heap \<Rightarrow> memo \<Rightarrow> addr \<Rightarrow> (addr \<times> heap \<times> memo) option" where
  "copy_info h m a =
     (case map_of m a of
        Some a' \<Rightarrow> Some (a', h, m)
      | None \<Rightarrow>
          (case lookup h a of
             Some (CInfo u p f) \<Rightarrow> Some (alloc a (CInfo u p f) h m)
           | _ \<Rightarrow> None))"

fun copy_entries ::
  "heap \<Rightarrow> memo \<Rightarrow> (string \<times> addr) list \<Rightarrow> ((string \<times> addr) list \<times> heap \<times> memo) option" where
  "copy_entries h m [] = Some ([], h, m)"
| "copy_entries h m ((k, a) # kvs) =
     (case copy_info h m a of
        None \<Rightarrow> None
      | Some (a', h', m') \<Rightarrow>
          (case copy_entries h' m' kvs of
             None \<Rightarrow> None
           | Some (kvs', h'', m'') \<Rightarrow> Some ((k, a') # kvs', h'', m'')))"

definition copy_infos :: "heap \<Rightarrow> memo \<Rightarrow> addr \<Rightarrow> (addr \<times> heap \<times> memo) option" where
  "copy_infos h m a =
     (case map_of m a of
        Some a' \<Rightarrow> Some (a', h, m)
      | None \<Rightarrow>
          (case lookup h a of
             Some (CInfos kvs) \<Rightarrow>
               (case copy_entries h m kvs of
                  None \<Rightarrow> None
                | Some (kvs', h', m') \<Rightarrow> Some (alloc a (CInfos kvs') h' m'))
           | _ \<Rightarrow> None))"

definition copy_trace :: "heap \<Rightarrow> memo \<Rightarrow> addr \<Rightarrow> (addr \<times> heap \<times> memo) option" where
  "copy_trace h m a =
     (case map_of m a of
        Some a' \<Rightarrow> Some (a', h, m)
      | None \<Rightarrow>
          (case lookup h a of
             Some (CTrace s l i d) \<Rightarrow>
               (case copy_list h m s of
                  None \<Rightarrow> None
                | Some (s', h1, m1) \<Rightarrow>
                    (case copy_list h1 m1 l of
                       None \<Rightarrow> None
                     | Some (l', h2, m2) \<Rightarrow>
                         (case copy_infos h2 m2 i of
                            None \<Rightarrow> None
                          | Some (i', h3, m3) \<Rightarrow> Some (alloc a (CTrace s' l' i' d) h3 m3))))
           | _ \<Rightarrow> None))"

text \<open>
  The \<^verbatim>\<open>trace\<close> property of an environment whose \<^verbatim>\<open>_trace\<close> is the object at
  \<open>t\<close>: the address of the copy and the store after the copy.
\<close>

definition trace_property :: "heap \<Rightarrow> addr \<Rightarrow> (addr \<times> heap) option" where
  "trace_property h t =
     (case copy_trace h [] t of None \<Rightarrow> None | Some (t', h', m) \<Rightarrow> Some (t', h'))"

text \<open>
  What a caller can do to objects: overwrite an object that exists, or create one. The
  objects that the copy created, and the ones that a caller creates afterwards, are at
  the addresses from \<open>n\<close> on, where \<open>n\<close> is the size of the store before the copy;
  \<open>on_copy n\<close> holds of the mutations of these objects.
\<close>

datatype mutation = Write addr cell | Create cell

fun mutate :: "heap \<Rightarrow> mutation \<Rightarrow> heap" where
  "mutate h (Write a c) = (if a < length h then h[a := c] else h)"
| "mutate h (Create c) = h @ [c]"

fun on_copy :: "nat \<Rightarrow> mutation \<Rightarrow> bool" where
  "on_copy n (Write a c) = (n \<le> a)"
| "on_copy n (Create c) = True"

text \<open>
  The objects from address \<open>n\<close> on refer only to objects from address \<open>n\<close> on and to
  function objects.
\<close>

definition shares_only_functions :: "nat \<Rightarrow> heap \<Rightarrow> bool" where
  "shares_only_functions n h =
     (\<forall>i. n \<le> i \<and> i < length h \<longrightarrow>
        (\<forall>b \<in> set (refs (h ! i)). (n \<le> b \<and> b < length h) \<or> read_func h b \<noteq> None))"

text \<open>
  The environment whose \<^verbatim>\<open>_trace\<close> is the object at \<open>t\<close>. Its registry
  \<^verbatim>\<open>_action_infos\<close> is the dictionary that the trace holds as \<^verbatim>\<open>action_infos\<close>:
  \<^verbatim>\<open>_initialize_trace\<close> stores that very object in the trace.
\<close>

definition env_at :: "env \<Rightarrow> heap \<Rightarrow> addr \<Rightarrow> env option" where
  "env_at e h t =
     map_option (\<lambda>tr. e\<lparr>env_action_infos := action_infos tr, env_trace := tr\<rparr>) (read_trace h t)"

text \<open>
  The state of a copy in progress, started on the store \<open>h0\<close>: the store has only grown,
  every copy recorded in the memo is a new object that denotes what the original denoted,
  and the new objects refer only to new objects and to function objects.
\<close>

definition same_value :: "heap \<Rightarrow> addr \<Rightarrow> heap \<Rightarrow> addr \<Rightarrow> bool" where
  "same_value h0 a h a' =
     ((\<forall>v. read_args h0 a = Some v \<longrightarrow> read_args h a' = Some v)
      \<and> (\<forall>v. read_action h0 a = Some v \<longrightarrow> read_action h a' = Some v)
      \<and> (\<forall>v. read_step h0 a = Some v \<longrightarrow> read_step h a' = Some v)
      \<and> (\<forall>v. read_list h0 a = Some v \<longrightarrow> read_list h a' = Some v)
      \<and> (\<forall>v. read_info h0 a = Some v \<longrightarrow> read_info h a' = Some v)
      \<and> (\<forall>v. read_infos h0 a = Some v \<longrightarrow> read_infos h a' = Some v)
      \<and> (\<forall>v. read_trace h0 a = Some v \<longrightarrow> read_trace h a' = Some v))"

definition memo_ok :: "heap \<Rightarrow> heap \<Rightarrow> memo \<Rightarrow> bool" where
  "memo_ok h0 h m =
     (\<forall>(a, a') \<in> set m. length h0 \<le> a' \<and> a' < length h \<and> same_value h0 a h a')"

definition copying :: "heap \<Rightarrow> heap \<Rightarrow> memo \<Rightarrow> bool" where
  "copying h0 h m = (prefix h0 h \<and> memo_ok h0 h m \<and> shares_only_functions (length h0) h)"

text \<open>
  A store that holds a trace with one step and a registry of one action, at address 8,
  and the store after the \<^verbatim>\<open>trace\<close> property has copied it.
\<close>

definition demo_heap :: heap where
  "demo_heap =
     [CArgs [(''script_name'', ''train.py'')],
      CAction ''Execute Script'' (Inr 0),
      CStep 1 ''ok'' 1,
      CList [2],
      CList [],
      CFunc (returning ''ok''),
      CInfo [(''script_name'', ''a valid python script name'')] True 5,
      CInfos [(''Execute Script'', 6)],
      CTrace 3 4 7 ''task'']"

definition demo_copy :: heap where
  "demo_copy =
     demo_heap @
     [CArgs [(''script_name'', ''train.py'')],
      CAction ''Execute Script'' (Inr 9),
      CStep 10 ''ok'' 1,
      CList [11],
      CList [],
      CInfo [(''script_name'', ''a valid python script name'')] True 5,
      CInfos [(''Execute Script'', 14)],
      CTrace 12 13 15 ''task'']"

definition demo_trace :: trace where
  "demo_trace = \<lparr>steps = [demo_step 1], low_level_steps = [], task_description = ''task'',
                  action_infos = [(''Execute Script'', demo_entry (returning ''ok''))]\<rparr>"

section \<open>Read-only files under the default pattern\<close>

lemma fnmatch_star: "fnmatch n ''*''"
  by (induction n) simp_all

lemma ignore_filenames_star: "ignore_filenames filenames ''*'' = []"
  by (simp add: ignore_filenames_def fnmatch_star)

lemma read_only_of_dir_default: "read_only_of_dir can_modify_files relpath files = []"
  by (simp add: read_only_of_dir_def can_modify_files_def ignore_filenames_star)

text \<open>
  C9: with the default pattern set, the read-only file list computed at initialisation is
  empty whatever the workspace contains, because every relative path matches the pattern.
\<close>

theorem read_only_files_default_empty:
  "initialize_read_only walk = [] \<and> fnmatch (path_join relpath filename) can_modify_files"
proof
  show "initialize_read_only walk = []"
    by (induction walk) (auto simp: initialize_read_only_def read_only_of_dir_default)
  show "fnmatch (path_join relpath filename) can_modify_files"
    by (simp add: can_modify_files_def fnmatch_star)
qed

section \<open>Resuming a trace\<close>

lemma slice_to_in_range:
  "0 \<le> k \<Longrightarrow> nat k < length xs \<Longrightarrow>
     slice_to xs (k + 1) = take (nat k + 1) xs \<and> slice_to xs (k + 1) \<noteq> [] \<and>
     last (slice_to xs (k + 1)) = xs ! nat k"
proof -
  assume k: "0 \<le> k" and len: "nat k < length xs"
  have n: "nat (k + 1) = nat k + 1"
    using k by simp
  have s: "slice_to xs (k + 1) = take (nat k + 1) xs"
    using k by (simp add: slice_to_def n)
  have t: "take (nat k + 1) xs = take (nat k) xs @ [xs ! nat k]"
    using len by (simp add: take_Suc_conv_app_nth)
  show ?thesis
    using s t by simp
qed

text \<open>
  C3: resuming at a target index \<open>k\<close> inside the step range of the prior trace keeps
  exactly the steps \<open>0..k\<close> of the prior trace, and exactly those prior low-level steps
  whose timestamp is strictly less than the timestamp of step \<open>k\<close>.
\<close>

theorem resume_truncates_trace:
  assumes "resuming cfg"
    and "0 \<le> resume_step cfg"
    and "nat (resume_step cfg) < length (steps prev)"
  shows "\<exists>tr. initialize_trace cfg infos problem prev = Inr tr
           \<and> steps tr = take (nat (resume_step cfg) + 1) (steps prev)
           \<and> length (steps tr) = nat (resume_step cfg) + 1
           \<and> (\<forall>i \<le> nat (resume_step cfg). steps tr ! i = steps prev ! i)
           \<and> low_level_steps tr =
               filter (\<lambda>s. timestamp s < timestamp (steps prev ! nat (resume_step cfg)))
                 (low_level_steps prev)"
proof -
  note s = slice_to_in_range [OF assms(2) assms(3)]
  have len: "length (take (nat (resume_step cfg) + 1) (steps prev)) = nat (resume_step cfg) + 1"
    using assms(3) by simp
  have ne: "steps prev \<noteq> []"
    using assms(3) by auto
  show ?thesis
    using assms(1) s len ne by (auto simp: initialize_trace_def Let_def)
qed

section \<open>Facts about \<^verbatim>\<open>execute\<close>\<close>

lemma outcome_observed [simp]: "outcome (observed e a obs t ns) = Inr obs"
  by (simp add: observed_def)

lemma invoked_observed [simp]: "invoked (observed e a obs t ns) = ns"
  by (simp add: observed_def)

lemma steps_append_step [simp]:
  "steps (env_trace (append_step e a obs t)) =
     steps (env_trace e) @ [\<lparr>action = a, observation = obs, timestamp = t\<rparr>]"
  by (simp add: append_step_def save_def)

lemma env_args_append_step [simp]: "env_args (append_step e a obs t) = env_args e"
  by (simp add: append_step_def save_def)

lemma env_after_observed [simp]: "env_after (observed e a obs t ns) = append_step e a obs t"
  by (simp add: observed_def)

lemma execute_raised:
  assumes "name a \<noteq> ''Final Answer''"
    and "\<not> is_final e (t_final r)"
    and "map_of (env_action_infos e) (name a) = Some info"
    and "args a = Mapping kwargs"
    and "func info kwargs (tool_log_file (env_log_dir e) (length (steps (env_trace e))))
           (trace_data.truncate (env_trace e)) = (Inl x, lls)"
  shows "outcome (execute e a r) =
           normalize (name a) (invalid_action_error (name a) (usage info)) x"
  using assms by (simp add: execute_def Let_def split: sum.splits)

lemma execute_steps:
  "steps (env_trace (env_after (execute e a r))) =
     (case outcome (execute e a r) of
        Inr obs \<Rightarrow> steps (env_trace e) @ [\<lparr>action = a, observation = obs, timestamp = t_step r\<rparr>]
      | Inl x \<Rightarrow> steps (env_trace e))"
  by (simp add: execute_def Let_def split: sum.splits option.splits action_args.splits prod.splits)

lemma execute_env_args: "env_args (env_after (execute e a r)) = env_args e"
  by (simp add: execute_def Let_def split: sum.splits option.splits action_args.splits prod.splits)

lemma normalize_raises:
  "normalize n h x = Inl y \<Longrightarrow>
     (\<exists>m. x = TimeoutException m \<and> y = x)
     \<or> (contains ''Connection aborted.'' (str_of_exn x) \<and> y = OtherException ''Connection aborted for crfm'')"
  by (cases x) (auto split: if_splits)

lemmas demo_defs = demo_args_def raising_def returning_def demo_entry_def demo_env_def
  run_script_def clock_def trace_data.defs

section \<open>Error normalisation in \<^verbatim>\<open>execute\<close>\<close>

text \<open>
  The claim C1 as written fails: a registered action called with a mapping whose callable
  raises an exception with the text \<^verbatim>\<open>Connection aborted.\<close> makes \<^verbatim>\<open>execute\<close> raise
  \<^verbatim>\<open>Exception("Connection aborted for crfm")\<close>; no generic observation is returned,
  and the exception is not the timeout signal.
\<close>

theorem execute_connection_aborted_counterexample:
  "map_of (env_action_infos (demo_env (raising (OtherException ''Connection aborted.'')) []))
       (name run_script) \<noteq> None
   \<and> args run_script = Mapping [(''script_name'', ''train.py'')]
   \<and> outcome (execute (demo_env (raising (OtherException ''Connection aborted.'')) []) run_script (clock 1))
       = Inl (OtherException ''Connection aborted for crfm'')
   \<and> outcome (execute (demo_env (raising (OtherException ''Connection aborted.'')) []) run_script (clock 1))
       \<noteq> Inr ''EnvError: Error executing Execute Script.''"
  by (simp add: demo_defs execute_def is_final_def Let_def)

text \<open>
  C1 (amended): when the callable of a registered action, called with a mapping, raises,
  \<^verbatim>\<open>execute\<close> returns the fixed observation for a prompt-too-long error,
  \<^verbatim>\<open>LLMError: \<close> and the message for a completion-service error, \<^verbatim>\<open>EnvError: \<close> and
  the message for a declared tool error, \<^verbatim>\<open>EnvError: \<close> and the usage hint for a
  \<^verbatim>\<open>TypeError\<close>, and the generic \<^verbatim>\<open>EnvError: Error executing <name>.\<close> for every other
  exception whose text does not contain \<^verbatim>\<open>Connection aborted.\<close>. Two cases propagate:
  the timeout signal, re-raised as it is, and an exception whose text contains
  \<^verbatim>\<open>Connection aborted.\<close>, replaced by a new exception.
\<close>

theorem execute_normalizes_errors:
  assumes "name a \<noteq> ''Final Answer''"
    and "\<not> is_final e (t_final r)"
    and "map_of (env_action_infos e) (name a) = Some info"
    and "args a = Mapping kwargs"
    and "func info kwargs (tool_log_file (env_log_dir e) (length (steps (env_trace e))))
           (trace_data.truncate (env_trace e)) = (Inl x, lls)"
  shows "outcome (execute e a r) =
     (case x of
        TooLongPromptError \<Rightarrow> Inr ''EnvError: too long input for the tool''
      | LLMError m \<Rightarrow> Inr (''LLMError: '' @ m)
      | EnvException m \<Rightarrow> Inr (''EnvError: '' @ m)
      | TypeError m \<Rightarrow> Inr (''EnvError: '' @ invalid_action_error (name a) (usage info))
      | TimeoutException m \<Rightarrow> Inl (TimeoutException m)
      | _ \<Rightarrow>
          if contains ''Connection aborted.'' (str_of_exn x)
          then Inl (OtherException ''Connection aborted for crfm'')
          else Inr (''EnvError: Error executing '' @ name a @ ''.''))"
  unfolding execute_raised [OF assms] by (cases x) simp_all

text \<open>The theorem at a completion-service error and at an undeclared exception.\<close>

theorem execute_normalizes_errors_witness:
  "outcome (execute (demo_env (raising (LLMError ''rate limit'')) []) run_script (clock 1))
     = Inr ''LLMError: rate limit''
   \<and> outcome (execute (demo_env (raising (OtherException ''boom'')) []) run_script (clock 1))
     = Inr ''EnvError: Error executing Execute Script.''"
proof -
  have n: "name run_script \<noteq> ''Final Answer''"
    by (simp add: run_script_def)
  have f: "\<not> is_final (demo_env t []) (t_final (clock 1))" for t
    by (simp add: demo_defs is_final_def)
  have m: "map_of (env_action_infos (demo_env t [])) (name run_script) = Some (demo_entry t)" for t
    by (simp add: demo_env_def run_script_def)
  have g: "args run_script = Mapping [(''script_name'', ''train.py'')]"
    by (simp add: run_script_def)
  have c: "func (demo_entry (raising x)) [(''script_name'', ''train.py'')]
             (tool_log_file (env_log_dir (demo_env (raising x) []))
                (length (steps (env_trace (demo_env (raising x) [])))))
             (trace_data.truncate (env_trace (demo_env (raising x) []))) = (Inl x, [])" for x
    by (simp add: demo_defs)
  show ?thesis
    using execute_normalizes_errors [OF n f m g c [of "LLMError ''rate limit''"]]
      execute_normalizes_errors [OF n f m g c [of "OtherException ''boom''"]]
    by (simp add: run_script_def)
qed

lemmas demo_defs2 = demo_defs unknown_tool_def demo_step_def demo_prev_def demo_calls_def

lemma demo_session:
  "fst (execute_all (demo_env (returning ''ok'') []) demo_calls) = None"
  by (simp add: execute_def is_final_def demo_defs2 Let_def append_step_def save_def)

section \<open>Resuming a trace, evaluated\<close>

text \<open>
  The resume theorem on a prior trace of five steps, resumed at index 2.
\<close>

theorem resume_truncates_trace_witness:
  "\<exists>tr. initialize_trace demo_resume_args [] ''task'' demo_prev = Inr tr
     \<and> map timestamp (steps tr) = [10, 20, 30]
     \<and> map timestamp (low_level_steps tr) = [5, 25]"
proof -
  have r: "resuming demo_resume_args"
    by (simp add: demo_resume_args_def resuming_def)
  have k: "0 \<le> resume_step demo_resume_args"
    by (simp add: demo_resume_args_def)
  have n: "nat (resume_step demo_resume_args) < length (steps demo_prev)"
    by (simp add: demo_resume_args_def demo_prev_def)
  from resume_truncates_trace [OF r k n, of "[]" "''task''"]
  obtain tr where tr: "initialize_trace demo_resume_args [] ''task'' demo_prev = Inr tr"
    "steps tr = take (nat (resume_step demo_resume_args) + 1) (steps demo_prev)"
    "low_level_steps tr =
       filter (\<lambda>s. timestamp s < timestamp (steps demo_prev ! nat (resume_step demo_resume_args)))
         (low_level_steps demo_prev)"
    by blast
  have "map timestamp (steps tr) = [10, 20, 30]"
    by (simp add: tr(2) demo_resume_args_def demo_prev_def demo_step_def)
  moreover have "map timestamp (low_level_steps tr) = [5, 25]"
    by (simp add: tr(3) demo_resume_args_def demo_prev_def demo_step_def)
  ultimately show ?thesis
    using tr(1) by (intro exI [of _ tr]) simp
qed

section \<open>One step per call\<close>

lemma execute_not_observed:
  assumes "outcome (execute e a r) = Inl x"
  shows "name a \<noteq> ''Final Answer'' \<and> \<not> is_final e (t_final r)
     \<and> (\<exists>info kwargs y lls.
           map_of (env_action_infos e) (name a) = Some info \<and> args a = Mapping kwargs
           \<and> func info kwargs (tool_log_file (env_log_dir e) (length (steps (env_trace e))))
                (trace_data.truncate (env_trace e)) = (Inl y, lls)
           \<and> normalize (name a) (invalid_action_error (name a) (usage info)) y = Inl x)"
  using assms
  by (auto simp: execute_def Let_def
      split: if_splits sum.splits option.splits action_args.splits prod.splits)

text \<open>
  The claim C5 as written fails: a call whose callable raises the timeout signal leaves
  \<^verbatim>\<open>execute\<close> by that exception before the step is appended, so the steps are as they
  were.
\<close>

theorem execute_timeout_counterexample:
  "outcome (execute (demo_env (raising (TimeoutException ''Timed out!'')) [demo_step 1])
       run_script (clock 2)) = Inl (TimeoutException ''Timed out!'')
   \<and> steps (env_trace (env_after
        (execute (demo_env (raising (TimeoutException ''Timed out!'')) [demo_step 1])
           run_script (clock 2)))) = [demo_step 1]
   \<and> length (steps (env_trace (env_after
        (execute (demo_env (raising (TimeoutException ''Timed out!'')) [demo_step 1])
           run_script (clock 2)))))
       \<noteq> length (steps (env_trace
           (demo_env (raising (TimeoutException ''Timed out!'')) [demo_step 1]))) + 1"
  by (simp add: execute_def is_final_def demo_defs2 Let_def)

text \<open>
  C5 (amended): every call of \<^verbatim>\<open>execute\<close> that returns an observation appends exactly
  one step, carrying that observation, whichever branch produced it; the steps never
  shrink. A call that returns no observation, because the callable raised the timeout
  signal or a connection abort that \<^verbatim>\<open>execute\<close> lets through, appends nothing.
\<close>

theorem execute_appends_one_step:
  "prefix (steps (env_trace e)) (steps (env_trace (env_after (execute e a r))))
   \<and> (case outcome (execute e a r) of
        Inr obs \<Rightarrow>
          steps (env_trace (env_after (execute e a r))) =
            steps (env_trace e) @ [\<lparr>action = a, observation = obs, timestamp = t_step r\<rparr>]
          \<and> length (steps (env_trace (env_after (execute e a r)))) =
              length (steps (env_trace e)) + 1
      | Inl x \<Rightarrow>
          steps (env_trace (env_after (execute e a r))) = steps (env_trace e)
          \<and> name a \<noteq> ''Final Answer'' \<and> \<not> is_final e (t_final r)
          \<and> (\<exists>info kwargs y lls.
                map_of (env_action_infos e) (name a) = Some info \<and> args a = Mapping kwargs
                \<and> func info kwargs
                     (tool_log_file (env_log_dir e) (length (steps (env_trace e))))
                     (trace_data.truncate (env_trace e)) = (Inl y, lls)
                \<and> ((\<exists>m. y = TimeoutException m)
                     \<or> contains ''Connection aborted.'' (str_of_exn y))))"
proof (cases "outcome (execute e a r)")
  case (Inl x)
  from execute_not_observed [OF Inl] obtain info kwargs y lls where
    h: "name a \<noteq> ''Final Answer''" "\<not> is_final e (t_final r)"
      "map_of (env_action_infos e) (name a) = Some info" "args a = Mapping kwargs"
      "func info kwargs (tool_log_file (env_log_dir e) (length (steps (env_trace e))))
         (trace_data.truncate (env_trace e)) = (Inl y, lls)"
      "normalize (name a) (invalid_action_error (name a) (usage info)) y = Inl x"
    by blast
  from normalize_raises [OF h(6)]
  have "(\<exists>m. y = TimeoutException m) \<or> contains ''Connection aborted.'' (str_of_exn y)"
    by blast
  with h Inl show ?thesis
    using execute_steps [of e a r] by auto
next
  case (Inr obs)
  then show ?thesis
    using execute_steps [of e a r] by simp
qed

text \<open>
  The theorem at an unknown action, in a session that already has one step.
\<close>

theorem execute_appends_one_step_witness:
  "outcome (execute (demo_env (returning ''ok'') [demo_step 1]) unknown_tool (clock 2)) =
     Inr (invalid_action_observation ''NoSuchTool'' [''Execute Script''])
   \<and> length (steps (env_trace (env_after
        (execute (demo_env (returning ''ok'') [demo_step 1]) unknown_tool (clock 2))))) = 2"
proof -
  have o: "outcome (execute (demo_env (returning ''ok'') [demo_step 1]) unknown_tool (clock 2)) =
     Inr (invalid_action_observation ''NoSuchTool'' [''Execute Script''])"
    by (simp add: execute_def is_final_def demo_defs2 Let_def)
  have l: "length (steps (env_trace (demo_env (returning ''ok'') [demo_step 1]))) = 1"
    by (simp add: demo_env_def)
  show ?thesis
    using execute_appends_one_step
      [of "demo_env (returning ''ok'') [demo_step 1]" unknown_tool "clock 2"] o l
    by simp
qed

section \<open>The step budget\<close>

lemma execute_all_length:
  "execute_all e calls = (None, e') \<Longrightarrow>
     length (steps (env_trace e')) = length (steps (env_trace e)) + length calls
     \<and> env_args e' = env_args e"
proof (induction calls arbitrary: e)
  case Nil
  then show ?case by simp
next
  case (Cons c calls)
  obtain a r where c: "c = (a, r)"
    by (cases c)
  show ?case
  proof (cases "outcome (execute e a r)")
    case (Inl x)
    with Cons.prems c show ?thesis by simp
  next
    case (Inr obs)
    with Cons.prems c have "execute_all (env_after (execute e a r)) calls = (None, e')"
      by simp
    from Cons.IH [OF this] show ?thesis
      using Inr execute_steps [of e a r] execute_env_args [of e a r] by simp
  qed
qed

lemma execute_when_final:
  "name a \<noteq> ''Final Answer'' \<Longrightarrow> is_final e (t_final r) \<Longrightarrow>
     execute e a r = observed e a shut_down_observation (t_step r) []"
  by (simp add: execute_def)

text \<open>
  C2: in a session with step budget \<open>B\<close>, once \<open>B\<close> actions have been executed,
  \<^verbatim>\<open>is_final\<close> is true at every clock reading, and a further \<^verbatim>\<open>execute\<close> with a name
  other than \<^verbatim>\<open>Final Answer\<close> returns the shut-down observation and invokes no registry
  entry.
\<close>

theorem budget_exhausted_shuts_down:
  assumes "steps (env_trace e0) = []"
    and "max_steps (env_args e0) = int (length calls)"
    and "execute_all e0 calls = (None, e)"
    and "name a \<noteq> ''Final Answer''"
  shows "is_final e now
     \<and> outcome (execute e a r) = Inr shut_down_observation
     \<and> invoked (execute e a r) = []"
proof -
  from execute_all_length [OF assms(3)] assms(1) assms(2)
  have "max_steps (env_args e) \<le> int (length (steps (env_trace e)))"
    by simp
  then have f: "is_final e t" for t
    by (simp add: is_final_def)
  show ?thesis
    using f execute_when_final [OF assms(4) f] by simp
qed

text \<open>
  The theorem with budget 3, after three executed actions.
\<close>

theorem budget_exhausted_shuts_down_witness:
  "is_final (snd (execute_all (demo_env (returning ''ok'') []) demo_calls)) 3
   \<and> outcome (execute (snd (execute_all (demo_env (returning ''ok'') []) demo_calls))
        run_script (clock 3)) = Inr shut_down_observation
   \<and> invoked (execute (snd (execute_all (demo_env (returning ''ok'') []) demo_calls))
        run_script (clock 3)) = []"
proof -
  have s: "steps (env_trace (demo_env (returning ''ok'') [])) = []"
    by (simp add: demo_env_def)
  have b: "max_steps (env_args (demo_env (returning ''ok'') [])) = int (length demo_calls)"
    by (simp add: demo_env_def demo_args_def demo_calls_def)
  have r: "execute_all (demo_env (returning ''ok'') []) demo_calls =
      (None, snd (execute_all (demo_env (returning ''ok'') []) demo_calls))"
    using demo_session by (simp add: prod_eq_iff)
  have n: "name run_script \<noteq> ''Final Answer''"
    by (simp add: run_script_def)
  show ?thesis
    using budget_exhausted_shuts_down [OF s b r n] .
qed

section \<open>Timestamps\<close>

lemma execute_all_stamps:
  "execute_all e calls = (x, e') \<Longrightarrow>
     \<exists>n \<le> length calls.
       map timestamp (steps (env_trace e')) =
         map timestamp (steps (env_trace e)) @ map (\<lambda>c. t_step (snd c)) (take n calls)
       \<and> (x = None \<longrightarrow> n = length calls)"
proof (induction calls arbitrary: e)
  case Nil
  then show ?case by simp
next
  case (Cons c calls)
  obtain a r where c: "c = (a, r)"
    by (cases c)
  let ?e1 = "env_after (execute e a r)"
  show ?case
  proof (cases "outcome (execute e a r)")
    case (Inl y)
    with Cons.prems c have "e' = ?e1" and "x = Some y"
      by simp_all
    with Inl have "map timestamp (steps (env_trace e')) =
        map timestamp (steps (env_trace e)) @ map (\<lambda>c. t_step (snd c)) (take 0 (c # calls))
        \<and> (x = None \<longrightarrow> 0 = length (c # calls))"
      using execute_steps [of e a r] by simp
    then show ?thesis
      by blast
  next
    case (Inr obs)
    have st: "steps (env_trace ?e1) =
        steps (env_trace e) @ [\<lparr>action = a, observation = obs, timestamp = t_step r\<rparr>]"
      using Inr execute_steps [of e a r] by simp
    have "execute_all ?e1 calls = (x, e')"
      using Cons.prems c Inr by simp
    from Cons.IH [OF this] obtain n where n: "n \<le> length calls"
      "map timestamp (steps (env_trace e')) =
         map timestamp (steps (env_trace ?e1)) @ map (\<lambda>c. t_step (snd c)) (take n calls)"
      "x = None \<longrightarrow> n = length calls"
      by blast
    have "Suc n \<le> length (c # calls)
      \<and> map timestamp (steps (env_trace e')) =
         map timestamp (steps (env_trace e)) @ map (\<lambda>c. t_step (snd c)) (take (Suc n) (c # calls))
      \<and> (x = None \<longrightarrow> Suc n = length (c # calls))"
      using n c by (simp add: st)
    then show ?thesis
      by blast
  qed
qed

text \<open>
  The claim C6 as written fails: the timestamp of a step is the reading of the wall clock
  when it is appended, and when the clock steps back between two calls the later step has
  the smaller timestamp.
\<close>

theorem clock_back_counterexample:
  "map timestamp (steps (env_trace (snd (execute_all (demo_env (returning ''ok'') [])
       [(run_script, clock 5), (run_script, clock 3)])))) = [5, 3]
   \<and> \<not> timestamp (steps (env_trace (snd (execute_all (demo_env (returning ''ok'') [])
          [(run_script, clock 5), (run_script, clock 3)]))) ! 0)
        \<le> timestamp (steps (env_trace (snd (execute_all (demo_env (returning ''ok'') [])
          [(run_script, clock 5), (run_script, clock 3)]))) ! (0 + 1))"
  by (simp add: execute_def is_final_def demo_defs2 Let_def append_step_def save_def)

text \<open>
  C6 (amended): a session appends to the timestamps of the steps exactly the clock
  readings of its calls that returned, in call order, and changes no earlier step. So the
  timestamps are non-decreasing in append order exactly when the restored timestamps
  followed by these readings are; in particular in every session whose clock readings do
  not decrease, started from a trace that is ordered and not later than the readings (the
  empty trace of a fresh session, or a restored one).
\<close>

theorem step_timestamps_follow_clock:
  assumes "execute_all e calls = (x, e')"
  shows "map timestamp (steps (env_trace e')) =
       map timestamp (steps (env_trace e))
         @ map (\<lambda>c. t_step (snd c))
             (take (length (steps (env_trace e')) - length (steps (env_trace e))) calls)
     \<and> length (steps (env_trace e')) \<le> length (steps (env_trace e)) + length calls
     \<and> (x = None \<longrightarrow> length (steps (env_trace e')) = length (steps (env_trace e)) + length calls)
     \<and> ((\<forall>i. i + 1 < length (steps (env_trace e')) \<longrightarrow>
            timestamp (steps (env_trace e') ! i) \<le> timestamp (steps (env_trace e') ! (i + 1)))
          = sorted (map timestamp (steps (env_trace e))
              @ map (\<lambda>c. t_step (snd c))
                  (take (length (steps (env_trace e')) - length (steps (env_trace e))) calls)))
     \<and> (sorted (map timestamp (steps (env_trace e)))
          \<and> (\<forall>s \<in> set (steps (env_trace e)). \<forall>c \<in> set calls. timestamp s \<le> t_step (snd c))
          \<and> sorted (map (\<lambda>c. t_step (snd c)) calls)
        \<longrightarrow> (\<forall>i. i + 1 < length (steps (env_trace e')) \<longrightarrow>
              timestamp (steps (env_trace e') ! i) \<le> timestamp (steps (env_trace e') ! (i + 1))))"
proof -
  from execute_all_stamps [OF assms] obtain n where n: "n \<le> length calls"
    "map timestamp (steps (env_trace e')) =
       map timestamp (steps (env_trace e)) @ map (\<lambda>c. t_step (snd c)) (take n calls)"
    "x = None \<longrightarrow> n = length calls"
    by blast
  from n(2) have "length (map timestamp (steps (env_trace e'))) =
      length (map timestamp (steps (env_trace e)) @ map (\<lambda>c. t_step (snd c)) (take n calls))"
    by simp
  then have len: "length (steps (env_trace e')) = length (steps (env_trace e)) + n"
    using n(1) by simp
  then have d: "length (steps (env_trace e')) - length (steps (env_trace e)) = n"
    by simp
  let ?ts = "map timestamp (steps (env_trace e'))"
  have nth: "(\<forall>i. i + 1 < length (steps (env_trace e')) \<longrightarrow>
            timestamp (steps (env_trace e') ! i) \<le> timestamp (steps (env_trace e') ! (i + 1)))
          = sorted ?ts"
  proof -
    have "sorted ?ts = (\<forall>i. Suc i < length ?ts \<longrightarrow> ?ts ! i \<le> ?ts ! Suc i)"
      by (rule sorted_iff_nth_Suc)
    also have "\<dots> = (\<forall>i. i + 1 < length (steps (env_trace e')) \<longrightarrow>
            timestamp (steps (env_trace e') ! i) \<le> timestamp (steps (env_trace e') ! (i + 1)))"
      by auto
    finally show ?thesis
      by simp
  qed
  have srt: "sorted ?ts"
    if "sorted (map timestamp (steps (env_trace e)))"
      and "\<forall>s \<in> set (steps (env_trace e)). \<forall>c \<in> set calls. timestamp s \<le> t_step (snd c)"
      and "sorted (map (\<lambda>c. t_step (snd c)) calls)"
  proof -
    have "sorted (map (\<lambda>c. t_step (snd c)) (take n calls))"
      using that(3) by (simp add: take_map [symmetric] sorted_wrt_take)
    moreover have "\<forall>s \<in> set (steps (env_trace e)). \<forall>c \<in> set (take n calls).
        timestamp s \<le> t_step (snd c)"
      using that(2) by (meson in_set_takeD)
    ultimately show ?thesis
      using that(1) unfolding n(2) by (auto simp: sorted_append)
  qed
  show ?thesis
    unfolding d nth using n(2) n(3) len n(1) srt by simp
qed

text \<open>
  The theorem on a session of three calls, two of them at the same clock reading.
\<close>

theorem step_timestamps_follow_clock_witness:
  "map timestamp (steps (env_trace (snd (execute_all (demo_env (returning ''ok'') []) demo_calls))))
     = [1, 2, 2]
   \<and> timestamp (steps (env_trace (snd (execute_all (demo_env (returning ''ok'') []) demo_calls))) ! 0)
     \<le> timestamp (steps (env_trace (snd (execute_all (demo_env (returning ''ok'') []) demo_calls))) ! (0 + 1))"
proof -
  let ?e = "demo_env (returning ''ok'') []"
  have r: "execute_all ?e demo_calls = (None, snd (execute_all ?e demo_calls))"
    using demo_session by (simp add: prod_eq_iff)
  note t = step_timestamps_follow_clock [OF r]
  have s0: "steps (env_trace ?e) = []"
    by (simp add: demo_env_def)
  from t have len: "length (steps (env_trace (snd (execute_all ?e demo_calls)))) = 3"
    by (simp add: s0 demo_calls_def)
  from t have m: "map timestamp (steps (env_trace (snd (execute_all ?e demo_calls)))) =
      map timestamp (steps (env_trace ?e)) @ map (\<lambda>c. t_step (snd c))
        (take (length (steps (env_trace (snd (execute_all ?e demo_calls))))
           - length (steps (env_trace ?e))) demo_calls)"
    by (elim conjE)
  have m': "map timestamp (steps (env_trace (snd (execute_all ?e demo_calls)))) = [1, 2, 2]"
    unfolding m len s0 by (simp add: demo_calls_def clock_def)
  have "timestamp (steps (env_trace (snd (execute_all ?e demo_calls))) ! 0)
     \<le> timestamp (steps (env_trace (snd (execute_all ?e demo_calls))) ! (0 + 1))"
  proof -
    have "map timestamp (steps (env_trace (snd (execute_all ?e demo_calls)))) ! 0
        \<le> map timestamp (steps (env_trace (snd (execute_all ?e demo_calls)))) ! 1"
      unfolding m' by simp
    then show ?thesis
      using len by simp
  qed
  with m' show ?thesis
    by simp
qed

section \<open>The retry ceiling\<close>

lemma attempts_all_invalid:
  assumes "\<forall>p. \<exists>c x. complete_text p llm = Inr c \<and> parse_and_validate parse_entries fmt tools c = Inl x"
  shows "attempts n complete_text llm parse_entries fmt tools prompt =
     (Inr None, map (\<lambda>k. prompt @ concat (replicate k (corrective_instruction fmt))) [0 ..< n])"
proof (induction n arbitrary: prompt)
  case 0
  show ?case by simp
next
  case (Suc n)
  from assms obtain c x where c: "complete_text prompt llm = Inr c"
    "parse_and_validate parse_entries fmt tools c = Inl x"
    by blast
  have "map (\<lambda>k. prompt @ concat (replicate k (corrective_instruction fmt))) [0 ..< Suc n] =
      prompt # map (\<lambda>k. (prompt @ corrective_instruction fmt)
                       @ concat (replicate k (corrective_instruction fmt))) [0 ..< n]"
    by (simp add: upt_conv_Cons map_Suc_upt [symmetric] del: upt_Suc)
  then show ?case
    using c Suc.IH [of "prompt @ corrective_instruction fmt"] by simp
qed

text \<open>
  C8: when every response of the completion service fails parsing or the validation of
  the action name, the cycle makes exactly \<open>max_retries\<close> completion attempts, each with
  one more corrective instruction appended to the prompt, and \<^verbatim>\<open>run\<close> returns
  \<^verbatim>\<open>No valid response after max_retries\<close>; nothing is raised, and the loop is a total
  function.
\<close>

theorem retry_ceiling:
  assumes "\<forall>p. \<exists>c x. complete_text p (llm_name cfg) = Inr c
             \<and> parse_and_validate parse_entries fmt tools c = Inl x"
  shows "fst (get_response cfg complete_text parse_entries fmt tools prompt) =
           Inr (Return ''No valid response after max_retries'')
     \<and> length (snd (get_response cfg complete_text parse_entries fmt tools prompt)) =
           nat (max_retries cfg)
     \<and> snd (get_response cfg complete_text parse_entries fmt tools prompt) =
           map (\<lambda>k. prompt @ concat (replicate k (corrective_instruction fmt)))
             [0 ..< nat (max_retries cfg)]"
  using assms
    attempts_all_invalid [where complete_text = complete_text and llm = "llm_name cfg"
      and parse_entries = parse_entries and fmt = fmt and tools = tools
      and n = "nat (max_retries cfg)" and prompt = prompt]
  by (simp add: get_response_def)

text \<open>
  The theorem with five retries and a service whose responses never parse.
\<close>

theorem retry_ceiling_witness:
  "fst (get_response demo_agent_args unparsable no_fields [''Thought'', ''Action''] [''List Files''] ''p'')
     = Inr (Return ''No valid response after max_retries'')
   \<and> length (snd (get_response demo_agent_args unparsable no_fields [''Thought'', ''Action'']
        [''List Files''] ''p'')) = 5"
proof -
  have h: "\<forall>p. \<exists>c x. unparsable p (llm_name demo_agent_args) = Inr c
             \<and> parse_and_validate no_fields [''Thought'', ''Action''] [''List Files''] c = Inl x"
    by (simp add: unparsable_def no_fields_def parse_and_validate_def)
  show ?thesis
    using h
      retry_ceiling [where cfg = demo_agent_args and complete_text = unparsable
        and parse_entries = no_fields and fmt = "[''Thought'', ''Action'']"
        and tools = "[''List Files'']" and prompt = "''p''"]
    by (simp add: demo_agent_args_def)
qed

section \<open>The history after a checkpoint\<close>

text \<open>
  C7: the claim describes how the history is kept after every completed cycle. The code
  does not get there: whatever the cycle was, resuming \<^verbatim>\<open>run\<close> after the checkpoint
  raises \<^verbatim>\<open>NameError\<close> for \<^verbatim>\<open>fp\<close> at line 187, before the cycle is appended to the
  history at line 189 and before the entries that start with the marker are filtered at
  line 198. No cycle completes, and the history is never changed.
\<close>

theorem checkpoint_resume_raises:
  "after_checkpoint history_steps n_steps entries obs feedback = Inl (NameError ''fp'')"
  by (simp add: after_checkpoint_def load_name_def names_in_scope_def)

section \<open>Summarising observations\<close>

lemma ceil_div_step:
  assumes "0 < bs" and "0 < n"
  shows "(n + bs - 1) div bs = Suc ((n - bs + bs - 1) div bs)"
proof (cases "bs \<le> n")
  case True
  then have "n + bs - 1 = (n - bs + bs - 1) + bs"
    using assms by simp
  then have "(n + bs - 1) div bs = ((n - bs + bs - 1) + bs) div bs"
    by simp
  also have "\<dots> = Suc ((n - bs + bs - 1) div bs)"
    using assms(1) by (simp only: div_add_self2)
  finally show ?thesis .
next
  case False
  then have lt: "n < bs" by simp
  have "bs \<le> n + bs - 1" "n + bs - 1 < 2 * bs"
    using assms lt by simp_all
  then have "(n + bs - 1) div bs = 1"
    by (intro div_nat_eqI) simp_all
  moreover have "(n - bs + bs - 1) div bs = 0"
    using lt assms by simp
  ultimately show ?thesis by simp
qed

lemma range_step_unfold:
  assumes "0 < bs" and "0 < n"
  shows "range_step n bs = 0 # map (\<lambda>i. i + bs) (range_step (n - bs) bs)"
proof -
  have "map (\<lambda>k. k * bs) [0 ..< Suc m] = 0 # map (\<lambda>i. i + bs) (map (\<lambda>k. k * bs) [0 ..< m])" for m
    by (simp add: upt_conv_Cons map_Suc_upt [symmetric] del: upt_Suc)
  then show ?thesis
    unfolding range_step_def ceil_div_step [OF assms] .
qed

lemma blocks_of_Nil: "blocks_of bs [] = []"
proof -
  have "(bs - 1) div bs = 0"
    by (cases "bs = 0") simp_all
  then show ?thesis
    by (simp add: blocks_of_def range_step_def)
qed

lemma blocks_of_unfold:
  assumes "0 < bs" and "xs \<noteq> []"
  shows "blocks_of bs xs = take bs xs # blocks_of bs (drop bs xs)"
proof -
  have "0 < length xs"
    using assms(2) by simp
  from range_step_unfold [OF assms(1) this]
  show ?thesis
    by (simp add: blocks_of_def o_def add.commute)
qed

lemma blocks_of_props:
  assumes "0 < bs"
  shows "concat (blocks_of bs xs) = xs
     \<and> (\<forall>b \<in> set (blocks_of bs xs). 0 < length b \<and> length b \<le> bs)
     \<and> length (blocks_of bs xs) = (length xs + bs - 1) div bs"
proof (induction xs rule: length_induct)
  case (1 xs)
  show ?case
  proof (cases "xs = []")
    case True
    then show ?thesis
      using assms by (simp add: blocks_of_Nil)
  next
    case False
    have shorter: "length (drop bs xs) < length xs"
      using False assms by simp
    note ih = 1 [rule_format, OF shorter]
    have u: "blocks_of bs xs = take bs xs # blocks_of bs (drop bs xs)"
      using blocks_of_unfold [OF assms False] .
    have n: "(length xs + bs - 1) div bs = Suc ((length xs - bs + bs - 1) div bs)"
      using ceil_div_step [OF assms] False by simp
    have l: "length (take bs xs) \<le> bs" "0 < length (take bs xs)"
      using False assms by simp_all
    show ?thesis
      unfolding u n using ih l by simp
  qed
qed

lemma describe_blocks_all_return:
  assumes "\<forall>p. \<exists>c. complete_text_fast p = Inr c"
  shows "\<exists>ds. describe_blocks complete_text_fast a bs idx blocks =
           (Inr ds, map (\<lambda>(i, b). block_prompt a bs i b) (enumerate idx blocks))
         \<and> length ds = length blocks"
proof (induction blocks arbitrary: idx)
  case Nil
  show ?case by simp
next
  case (Cons b blocks)
  from assms obtain c where c: "complete_text_fast (block_prompt a bs idx b) = Inr c"
    by blast
  from Cons.IH [of "idx + 1"] obtain ds where
    ds: "describe_blocks complete_text_fast a bs (idx + 1) blocks =
           (Inr ds, map (\<lambda>(i, b). block_prompt a bs i b) (enumerate (idx + 1) blocks))"
      "length ds = length blocks"
    by blast
  show ?case
    using c ds by (simp add: Let_def)
qed

lemma summarize_observation_sent:
  assumes "\<forall>p. \<exists>c. complete_text_fast p = Inr c"
  shows "\<exists>summary. fst (summarize_observation complete_text_fast a obs) = Inr summary"
    and "take (length (blocks_of 10000 obs)) (snd (summarize_observation complete_text_fast a obs)) =
           map (\<lambda>(i, b). block_prompt a 10000 i b) (enumerate 0 (blocks_of 10000 obs))"
    and "length (snd (summarize_observation complete_text_fast a obs)) =
           length (blocks_of 10000 obs) + (if length (blocks_of 10000 obs) = 1 then 0 else 1)"
proof -
  from describe_blocks_all_return [OF assms, of a 10000 0 "blocks_of 10000 obs"]
  obtain ds where
    ds: "describe_blocks complete_text_fast a 10000 0 (blocks_of 10000 obs) =
           (Inr ds, map (\<lambda>(i, b). block_prompt a 10000 i b) (enumerate 0 (blocks_of 10000 obs)))"
      "length ds = length (blocks_of 10000 obs)"
    by blast
  from assms obtain c where c: "complete_text_fast (reduction_prompt a ds) = Inr c"
    by blast
  show "\<exists>summary. fst (summarize_observation complete_text_fast a obs) = Inr summary"
    using ds c by (simp add: summarize_observation_def Let_def)
  show "take (length (blocks_of 10000 obs)) (snd (summarize_observation complete_text_fast a obs)) =
           map (\<lambda>(i, b). block_prompt a 10000 i b) (enumerate 0 (blocks_of 10000 obs))"
    using ds c by (simp add: summarize_observation_def Let_def)
  show "length (snd (summarize_observation complete_text_fast a obs)) =
           length (blocks_of 10000 obs) + (if length (blocks_of 10000 obs) = 1 then 0 else 1)"
    using ds c by (simp add: summarize_observation_def Let_def)
qed

text \<open>
  The claim C4 as written fails: in a cycle of the control loop an observation of exactly
  10000 characters is not summarised at all, so no secondary call is made.
\<close>

theorem boundary_observation_counterexample:
  "length (replicate 10000 CHR ''x'') = 10000
   \<and> summarize_if_long terse ''Action: List Files'' (replicate 10000 CHR ''x'')
       = (Inr (replicate 10000 CHR ''x''), [])
   \<and> length (snd (summarize_if_long terse ''Action: List Files'' (replicate 10000 CHR ''x''))) \<noteq> 1"
  by (simp add: summarize_if_long_def)

text \<open>
  C4 (amended), for secondary calls that return: the chunks are contiguous, non-empty, at
  most 10000 characters long, and there is one for every started 10000 characters. In a
  cycle of the control loop an observation of at most 10000 characters is kept as it is,
  with no secondary call; a longer one has at least two chunks and triggers one call per
  chunk, in order, and then one reduction call (3 + 1 calls for 25000 characters).
  \<^verbatim>\<open>summarize_observation\<close> itself makes one call per chunk and adds the reduction call
  unless there is exactly one chunk: called on 10000 characters it makes a single call.
\<close>

theorem summarization_calls:
  assumes "\<forall>p. \<exists>c. complete_text_fast p = Inr c"
  shows "concat (blocks_of 10000 obs) = obs
     \<and> (\<forall>b \<in> set (blocks_of 10000 obs). 0 < length b \<and> length b \<le> 10000)
     \<and> length (blocks_of 10000 obs) = (length obs + 9999) div 10000
     \<and> (length obs \<le> 10000 \<longrightarrow> summarize_if_long complete_text_fast a obs = (Inr obs, []))
     \<and> (10000 < length obs \<longrightarrow>
          2 \<le> length (blocks_of 10000 obs)
          \<and> (\<exists>summary. fst (summarize_if_long complete_text_fast a obs) = Inr summary)
          \<and> take (length (blocks_of 10000 obs)) (snd (summarize_if_long complete_text_fast a obs)) =
               map (\<lambda>(i, b). block_prompt a 10000 i b) (enumerate 0 (blocks_of 10000 obs))
          \<and> length (snd (summarize_if_long complete_text_fast a obs)) =
               length (blocks_of 10000 obs) + 1)
     \<and> length (snd (summarize_observation complete_text_fast a obs)) =
          length (blocks_of 10000 obs) + (if length (blocks_of 10000 obs) = 1 then 0 else 1)
     \<and> (length obs = 10000 \<longrightarrow> length (snd (summarize_observation complete_text_fast a obs)) = 1)
     \<and> (length obs = 25000 \<longrightarrow>
          length (blocks_of 10000 obs) = 3
          \<and> length (snd (summarize_if_long complete_text_fast a obs)) = 4)"
proof -
  have pos: "(0::nat) < 10000"
    by simp
  note p = blocks_of_props [OF pos, of obs]
  have len: "length (blocks_of 10000 obs) = (length obs + 9999) div 10000"
    using p by simp
  note s = summarize_observation_sent [OF assms, where a = a and obs = obs]
  have big: "2 \<le> length (blocks_of 10000 obs)" if "10000 < length obs"
    using that unfolding len by linarith
  have long: "summarize_if_long complete_text_fast a obs =
      summarize_observation complete_text_fast a obs" if "10000 < length obs"
    using that by (simp add: summarize_if_long_def)
  have c1: "concat (blocks_of 10000 obs) = obs"
    using p by simp
  have c2: "\<forall>b \<in> set (blocks_of 10000 obs). 0 < length b \<and> length b \<le> 10000"
    using p by simp
  have c4: "length obs \<le> 10000 \<longrightarrow> summarize_if_long complete_text_fast a obs = (Inr obs, [])"
    by (simp add: summarize_if_long_def)
  have c5: "10000 < length obs \<longrightarrow>
          2 \<le> length (blocks_of 10000 obs)
          \<and> (\<exists>summary. fst (summarize_if_long complete_text_fast a obs) = Inr summary)
          \<and> take (length (blocks_of 10000 obs)) (snd (summarize_if_long complete_text_fast a obs)) =
               map (\<lambda>(i, b). block_prompt a 10000 i b) (enumerate 0 (blocks_of 10000 obs))
          \<and> length (snd (summarize_if_long complete_text_fast a obs)) =
               length (blocks_of 10000 obs) + 1"
  proof
    assume l: "10000 < length obs"
    from big [OF l] have "length (blocks_of 10000 obs) \<noteq> 1"
      by simp
    then show "2 \<le> length (blocks_of 10000 obs)
          \<and> (\<exists>summary. fst (summarize_if_long complete_text_fast a obs) = Inr summary)
          \<and> take (length (blocks_of 10000 obs)) (snd (summarize_if_long complete_text_fast a obs)) =
               map (\<lambda>(i, b). block_prompt a 10000 i b) (enumerate 0 (blocks_of 10000 obs))
          \<and> length (snd (summarize_if_long complete_text_fast a obs)) =
               length (blocks_of 10000 obs) + 1"
      unfolding long [OF l] using big [OF l] s by simp
  qed
  have c7: "length obs = 10000 \<longrightarrow> length (snd (summarize_observation complete_text_fast a obs)) = 1"
    using s(3) by (simp add: len)
  have c8: "length obs = 25000 \<longrightarrow>
          length (blocks_of 10000 obs) = 3
          \<and> length (snd (summarize_if_long complete_text_fast a obs)) = 4"
  proof
    assume l: "length obs = 25000"
    then have three: "length (blocks_of 10000 obs) = 3"
      by (simp add: len)
    have "10000 < length obs"
      using l by simp
    from long [OF this] three s(3)
    show "length (blocks_of 10000 obs) = 3
          \<and> length (snd (summarize_if_long complete_text_fast a obs)) = 4"
      by simp
  qed
  show ?thesis
    using c1 c2 len c4 c5 s(3) c7 c8 by (intro conjI)
qed

text \<open>
  The theorem at 25000 and at 10000 characters.
\<close>

theorem summarization_calls_witness:
  "length (snd (summarize_if_long terse ''Action: List Files'' (replicate 25000 CHR ''x''))) = 4
   \<and> length (snd (summarize_observation terse ''Action: List Files'' (replicate 10000 CHR ''x''))) = 1
   \<and> snd (summarize_if_long terse ''Action: List Files'' (replicate 10000 CHR ''x'')) = []"
proof -
  have h: "\<forall>p. \<exists>c. terse p = Inr c"
    by (simp add: terse_def)
  note t25 = summarization_calls [OF h, where obs = "replicate 25000 CHR ''x''"
      and a = "''Action: List Files''"]
  note t10 = summarization_calls [OF h, where obs = "replicate 10000 CHR ''x''"
      and a = "''Action: List Files''"]
  from t25 have "length (replicate 25000 CHR ''x'') = 25000 \<longrightarrow>
      length (blocks_of 10000 (replicate 25000 CHR ''x'')) = 3
      \<and> length (snd (summarize_if_long terse ''Action: List Files'' (replicate 25000 CHR ''x''))) = 4"
    by (elim conjE)
  then have 1: "length (snd (summarize_if_long terse ''Action: List Files'' (replicate 25000 CHR ''x''))) = 4"
    by simp
  from t10 have "length (replicate 10000 CHR ''x'') = 10000 \<longrightarrow>
      length (snd (summarize_observation terse ''Action: List Files'' (replicate 10000 CHR ''x''))) = 1"
    by (elim conjE)
  then have 2: "length (snd (summarize_observation terse ''Action: List Files'' (replicate 10000 CHR ''x''))) = 1"
    by simp
  from t10 have "length (replicate 10000 CHR ''x'') \<le> 10000 \<longrightarrow>
      summarize_if_long terse ''Action: List Files'' (replicate 10000 CHR ''x'')
        = (Inr (replicate 10000 CHR ''x''), [])"
    by (elim conjE)
  then have 3: "snd (summarize_if_long terse ''Action: List Files'' (replicate 10000 CHR ''x'')) = []"
    by simp
  show ?thesis
    using 1 2 3 by (intro conjI)
qed

section \<open>Deep copies of the trace\<close>

subsection \<open>Reading is stable when the store grows\<close>

lemma lookup_prefix: "prefix h h' \<Longrightarrow> lookup h a = Some c \<Longrightarrow> lookup h' a = Some c"
  by (auto simp: lookup_def prefix_def nth_append split: if_splits)

lemma read_args_prefix: "prefix h h' \<Longrightarrow> read_args h a = Some v \<Longrightarrow> read_args h' a = Some v"
  by (auto simp: read_args_def dest: lookup_prefix split: option.splits cell.splits)

lemma read_func_prefix: "prefix h h' \<Longrightarrow> read_func h a = Some v \<Longrightarrow> read_func h' a = Some v"
  by (auto simp: read_func_def dest: lookup_prefix split: option.splits cell.splits)

lemma read_info_prefix:
  assumes "prefix h h'" and "read_info h a = Some v"
  shows "read_info h' a = Some v"
proof -
  from assms(2) obtain u p f g where c: "lookup h a = Some (CInfo u p f)"
    and g: "read_func h f = Some g"
    by (auto simp: read_info_def split: option.splits cell.splits)
  from lookup_prefix [OF assms(1) c] read_func_prefix [OF assms(1) g] assms(2) c g
  show ?thesis
    by (simp add: read_info_def)
qed

lemma read_entries_prefix:
  "prefix h h' \<Longrightarrow> read_entries h kvs = Some v \<Longrightarrow> read_entries h' kvs = Some v"
proof (induction kvs arbitrary: v)
  case Nil
  then show ?case by simp
next
  case (Cons kv kvs)
  obtain k a where kv: "kv = (k, a)"
    by (cases kv)
  from Cons.prems(2) kv obtain x xs where x: "read_info h a = Some x"
    and xs: "read_entries h kvs = Some xs" and v: "v = (k, x) # xs"
    by (auto split: option.splits)
  from read_info_prefix [OF Cons.prems(1) x] Cons.IH [OF Cons.prems(1) xs] v kv
  show ?case by simp
qed

lemma read_infos_prefix:
  assumes "prefix h h'" and "read_infos h a = Some v"
  shows "read_infos h' a = Some v"
proof -
  from assms(2) obtain kvs where c: "lookup h a = Some (CInfos kvs)"
    and x: "read_entries h kvs = Some v"
    by (auto simp: read_infos_def split: option.splits cell.splits)
  from lookup_prefix [OF assms(1) c] read_entries_prefix [OF assms(1) x]
  show ?thesis
    by (simp add: read_infos_def)
qed

lemma read_action_prefix:
  assumes "prefix h h'" and "read_action h a = Some v"
  shows "read_action h' a = Some v"
proof -
  from assms(2) obtain n x where c: "lookup h a = Some (CAction n x)"
    by (auto simp: read_action_def split: option.splits cell.splits)
  note c' = lookup_prefix [OF assms(1) c]
  show ?thesis
  proof (cases x)
    case (Inl raw)
    with assms(2) c c' show ?thesis
      by (simp add: read_action_def)
  next
    case (Inr ar)
    with assms(2) c obtain d where d: "read_args h ar = Some d"
      by (auto simp: read_action_def split: option.splits)
    from read_args_prefix [OF assms(1) d] assms(2) c c' Inr d show ?thesis
      by (simp add: read_action_def)
  qed
qed

lemma read_step_prefix:
  assumes "prefix h h'" and "read_step h a = Some v"
  shows "read_step h' a = Some v"
proof -
  from assms(2) obtain ac ob ts x where c: "lookup h a = Some (CStep ac ob ts)"
    and x: "read_action h ac = Some x"
    by (auto simp: read_step_def split: option.splits cell.splits)
  from lookup_prefix [OF assms(1) c] read_action_prefix [OF assms(1) x] assms(2) c x
  show ?thesis
    by (simp add: read_step_def)
qed

lemma read_steps_prefix:
  "prefix h h' \<Longrightarrow> read_steps h as = Some v \<Longrightarrow> read_steps h' as = Some v"
proof (induction as arbitrary: v)
  case Nil
  then show ?case by simp
next
  case (Cons a as)
  from Cons.prems(2) obtain s ss where s: "read_step h a = Some s"
    and ss: "read_steps h as = Some ss" and v: "v = s # ss"
    by (auto split: option.splits)
  from read_step_prefix [OF Cons.prems(1) s] Cons.IH [OF Cons.prems(1) ss] v
  show ?case by simp
qed

lemma read_list_prefix:
  assumes "prefix h h'" and "read_list h a = Some v"
  shows "read_list h' a = Some v"
proof -
  from assms(2) obtain as where c: "lookup h a = Some (CList as)"
    and x: "read_steps h as = Some v"
    by (auto simp: read_list_def split: option.splits cell.splits)
  from lookup_prefix [OF assms(1) c] read_steps_prefix [OF assms(1) x]
  show ?thesis
    by (simp add: read_list_def)
qed

lemma read_trace_prefix:
  assumes "prefix h h'" and "read_trace h a = Some v"
  shows "read_trace h' a = Some v"
proof -
  from assms(2) obtain s l i d ss ls infos where c: "lookup h a = Some (CTrace s l i d)"
    and r: "read_list h s = Some ss" "read_list h l = Some ls" "read_infos h i = Some infos"
    and v: "v = \<lparr>steps = ss, low_level_steps = ls, task_description = d, action_infos = infos\<rparr>"
    by (auto simp: read_trace_def split: option.splits cell.splits)
  from lookup_prefix [OF assms(1) c] read_list_prefix [OF assms(1) r(1)]
    read_list_prefix [OF assms(1) r(2)] read_infos_prefix [OF assms(1) r(3)] v
  show ?thesis
    by (simp add: read_trace_def)
qed

lemmas read_prefix = read_args_prefix read_action_prefix read_step_prefix read_list_prefix
  read_info_prefix read_infos_prefix read_trace_prefix

lemma memo_ok_prefix:
  assumes "prefix h h'" and "memo_ok h0 h m"
  shows "memo_ok h0 h' m"
proof -
  have len: "length h \<le> length h'"
    using assms(1) by (rule prefix_length_le)
  have "same_value h0 a h a' \<Longrightarrow> same_value h0 a h' a'" for a a'
    using read_prefix [OF assms(1)] unfolding same_value_def by auto
  then show ?thesis
    using assms(2) len unfolding memo_ok_def by fastforce
qed

subsection \<open>The invariant of a copy in progress\<close>

lemma lookup_new: "lookup (h @ [c]) (length h) = Some c"
  by (simp add: lookup_def)

lemma memo_okD:
  "memo_ok h0 h m \<Longrightarrow> (a, a') \<in> set m \<Longrightarrow>
     length h0 \<le> a' \<and> a' < length h \<and> same_value h0 a h a'"
  unfolding memo_ok_def by (drule (1) bspec) simp

lemma memo_hit:
  assumes "copying h0 h m" and "map_of m a = Some a'"
  shows "length h0 \<le> a' \<and> a' < length h \<and> same_value h0 a h a'"
proof -
  from assms(2) have "(a, a') \<in> set m"
    by (rule map_of_SomeD)
  moreover from assms(1) have "memo_ok h0 h m"
    by (simp add: copying_def)
  ultimately show ?thesis
    by (rule memo_okD [rotated])
qed

lemma memo_ok_Cons:
  assumes "memo_ok h0 h m" and "length h0 \<le> a'" and "a' < length h" and "same_value h0 a h a'"
  shows "memo_ok h0 h ((a, a') # m)"
  unfolding memo_ok_def
proof
  fix x
  assume "x \<in> set ((a, a') # m)"
  then consider "x = (a, a')" | "x \<in> set m"
    by auto
  then show "case x of (a, a') \<Rightarrow> length h0 \<le> a' \<and> a' < length h \<and> same_value h0 a h a'"
  proof cases
    case 1
    then show ?thesis
      using assms(2-4) by simp
  next
    case 2
    obtain b b' where x: "x = (b, b')"
      by (cases x)
    from memo_okD [OF assms(1) 2 [unfolded x]] show ?thesis
      by (simp add: x)
  qed
qed

lemma read_func_snoc: "read_func h b \<noteq> None \<Longrightarrow> read_func (h @ [c]) b \<noteq> None"
proof -
  assume "read_func h b \<noteq> None"
  then obtain f where "read_func h b = Some f"
    by auto
  from read_func_prefix [OF _ this, of "h @ [c]"] show ?thesis
    by simp
qed

lemma shares_only_functions_snoc:
  assumes "shares_only_functions n h"
    and "\<forall>b \<in> set (refs c). (n \<le> b \<and> b < length h) \<or> read_func h b \<noteq> None"
  shows "shares_only_functions n (h @ [c])"
  unfolding shares_only_functions_def
proof (intro allI impI ballI)
  fix i b
  assume i: "n \<le> i \<and> i < length (h @ [c])" and b: "b \<in> set (refs ((h @ [c]) ! i))"
  have "(n \<le> b \<and> b < length h) \<or> read_func h b \<noteq> None"
  proof (cases "i < length h")
    case True
    then have e: "(h @ [c]) ! i = h ! i"
      by (simp add: nth_append)
    from assms(1) have "n \<le> i \<and> i < length h \<longrightarrow>
        (\<forall>b \<in> set (refs (h ! i)). (n \<le> b \<and> b < length h) \<or> read_func h b \<noteq> None)"
      unfolding shares_only_functions_def by (rule spec)
    with i True have "\<forall>b \<in> set (refs (h ! i)). (n \<le> b \<and> b < length h) \<or> read_func h b \<noteq> None"
      by simp
    with b e show ?thesis
      by simp
  next
    case False
    with i have "i = length h"
      by simp
    then have "(h @ [c]) ! i = c"
      by simp
    with b assms(2) show ?thesis
      by simp
  qed
  then show "(n \<le> b \<and> b < length (h @ [c])) \<or> read_func (h @ [c]) b \<noteq> None"
  proof
    assume "n \<le> b \<and> b < length h"
    then show ?thesis
      by simp
  next
    assume "read_func h b \<noteq> None"
    then show ?thesis
      by (simp add: read_func_snoc)
  qed
qed

lemma copying_alloc:
  assumes "copying h0 h m"
    and "\<forall>b \<in> set (refs c). (length h0 \<le> b \<and> b < length h) \<or> read_func h b \<noteq> None"
    and "same_value h0 a (h @ [c]) (length h)"
  shows "copying h0 (h @ [c]) ((a, length h) # m)"
proof -
  from assms(1) have p: "prefix h0 h" and m: "memo_ok h0 h m"
    and s: "shares_only_functions (length h0) h"
    by (simp_all add: copying_def)
  have p': "prefix h0 (h @ [c])"
    using p by (auto simp: prefix_def)
  have len: "length h0 \<le> length h"
    using p by (rule prefix_length_le)
  have "memo_ok h0 (h @ [c]) m"
    by (rule memo_ok_prefix [OF _ m]) simp
  then have m': "memo_ok h0 (h @ [c]) ((a, length h) # m)"
    using len assms(3) by (intro memo_ok_Cons) simp_all
  have s': "shares_only_functions (length h0) (h @ [c])"
    using s assms(2) by (rule shares_only_functions_snoc)
  show ?thesis
    using p' m' s' by (simp add: copying_def)
qed

lemma same_value_args:
  assumes "read_args h0 a = Some d" and "read_args h a' = Some d"
  shows "same_value h0 a h a'"
proof -
  from assms(1) obtain x where l: "lookup h0 a = Some (CArgs x)"
    by (auto simp: read_args_def split: option.splits cell.splits)
  have "read_infos h0 a = None"
    "read_info h0 a = None"
    "read_action h0 a = None"
    "read_step h0 a = None"
    "read_list h0 a = None"
    "read_trace h0 a = None"
    using l by (simp_all add: read_infos_def read_info_def read_action_def read_step_def read_list_def read_trace_def)
  with assms show ?thesis
    by (simp add: same_value_def)
qed

lemma same_value_infos:
  assumes "read_infos h0 a = Some d" and "read_infos h a' = Some d"
  shows "same_value h0 a h a'"
proof -
  from assms(1) obtain x where l: "lookup h0 a = Some (CInfos x)"
    by (auto simp: read_infos_def split: option.splits cell.splits)
  have "read_args h0 a = None"
    "read_info h0 a = None"
    "read_action h0 a = None"
    "read_step h0 a = None"
    "read_list h0 a = None"
    "read_trace h0 a = None"
    using l by (simp_all add: read_args_def read_info_def read_action_def read_step_def read_list_def read_trace_def)
  with assms show ?thesis
    by (simp add: same_value_def)
qed

lemma same_value_info:
  assumes "read_info h0 a = Some d" and "read_info h a' = Some d"
  shows "same_value h0 a h a'"
proof -
  from assms(1) obtain u p f where l: "lookup h0 a = Some (CInfo u p f)"
    by (auto simp: read_info_def split: option.splits cell.splits)
  have "read_args h0 a = None"
    "read_infos h0 a = None"
    "read_action h0 a = None"
    "read_step h0 a = None"
    "read_list h0 a = None"
    "read_trace h0 a = None"
    using l by (simp_all add: read_args_def read_infos_def read_action_def read_step_def read_list_def read_trace_def)
  with assms show ?thesis
    by (simp add: same_value_def)
qed

lemma same_value_action:
  assumes "read_action h0 a = Some d" and "read_action h a' = Some d"
  shows "same_value h0 a h a'"
proof -
  from assms(1) obtain n x where l: "lookup h0 a = Some (CAction n x)"
    by (auto simp: read_action_def split: option.splits cell.splits)
  have "read_args h0 a = None"
    "read_infos h0 a = None"
    "read_info h0 a = None"
    "read_step h0 a = None"
    "read_list h0 a = None"
    "read_trace h0 a = None"
    using l by (simp_all add: read_args_def read_infos_def read_info_def read_step_def read_list_def read_trace_def)
  with assms show ?thesis
    by (simp add: same_value_def)
qed

lemma same_value_step:
  assumes "read_step h0 a = Some d" and "read_step h a' = Some d"
  shows "same_value h0 a h a'"
proof -
  from assms(1) obtain ac ob ts where l: "lookup h0 a = Some (CStep ac ob ts)"
    by (auto simp: read_step_def split: option.splits cell.splits)
  have "read_args h0 a = None"
    "read_infos h0 a = None"
    "read_info h0 a = None"
    "read_action h0 a = None"
    "read_list h0 a = None"
    "read_trace h0 a = None"
    using l by (simp_all add: read_args_def read_infos_def read_info_def read_action_def read_list_def read_trace_def)
  with assms show ?thesis
    by (simp add: same_value_def)
qed

lemma same_value_list:
  assumes "read_list h0 a = Some d" and "read_list h a' = Some d"
  shows "same_value h0 a h a'"
proof -
  from assms(1) obtain x where l: "lookup h0 a = Some (CList x)"
    by (auto simp: read_list_def split: option.splits cell.splits)
  have "read_args h0 a = None"
    "read_infos h0 a = None"
    "read_info h0 a = None"
    "read_action h0 a = None"
    "read_step h0 a = None"
    "read_trace h0 a = None"
    using l by (simp_all add: read_args_def read_infos_def read_info_def read_action_def read_step_def read_trace_def)
  with assms show ?thesis
    by (simp add: same_value_def)
qed

lemma same_value_trace:
  assumes "read_trace h0 a = Some d" and "read_trace h a' = Some d"
  shows "same_value h0 a h a'"
proof -
  from assms(1) obtain s l i t where l: "lookup h0 a = Some (CTrace s l i t)"
    by (auto simp: read_trace_def split: option.splits cell.splits)
  have "read_args h0 a = None"
    "read_infos h0 a = None"
    "read_info h0 a = None"
    "read_action h0 a = None"
    "read_step h0 a = None"
    "read_list h0 a = None"
    using l by (simp_all add: read_args_def read_infos_def read_info_def read_action_def read_step_def read_list_def)
  with assms show ?thesis
    by (simp add: same_value_def)
qed

subsection \<open>Each class is copied to a new object with the same value\<close>

lemma same_valueD:
  assumes "same_value h0 a h a'"
  shows "read_args h0 a = Some v1 \<Longrightarrow> read_args h a' = Some v1"
    and "read_action h0 a = Some v2 \<Longrightarrow> read_action h a' = Some v2"
    and "read_step h0 a = Some v3 \<Longrightarrow> read_step h a' = Some v3"
    and "read_list h0 a = Some v4 \<Longrightarrow> read_list h a' = Some v4"
    and "read_infos h0 a = Some v5 \<Longrightarrow> read_infos h a' = Some v5"
    and "read_trace h0 a = Some v6 \<Longrightarrow> read_trace h a' = Some v6"
    and "read_info h0 a = Some v7 \<Longrightarrow> read_info h a' = Some v7"
  using assms unfolding same_value_def by auto

lemma copying_length: "copying h0 h m \<Longrightarrow> length h0 \<le> length h"
  unfolding copying_def by (blast intro: prefix_length_le)

lemma copying_prefix: "copying h0 h m \<Longrightarrow> prefix h0 h"
  unfolding copying_def by blast

lemma copy_args_ok:
  assumes "copying h0 h m" and "read_args h0 a = Some v"
  shows "\<exists>a' h' m'. copy_args h m a = Some (a', h', m') \<and> copying h0 h' m' \<and> prefix h h'
           \<and> length h0 \<le> a' \<and> a' < length h' \<and> read_args h' a' = Some v"
proof (cases "map_of m a")
  case (Some a')
  note hit = memo_hit [OF assms(1) Some]
  have r: "read_args h a' = Some v"
    using hit assms(2) by (blast dest: same_valueD(1))
  have c: "copy_args h m a = Some (a', h, m)"
    by (simp add: copy_args_def Some)
  show ?thesis
    using c assms(1) hit r by simp
next
  case None
  from assms(2) have l0: "lookup h0 a = Some (CArgs v)"
    by (auto simp: read_args_def split: option.splits cell.splits)
  have l: "lookup h a = Some (CArgs v)"
    using lookup_prefix [OF copying_prefix [OF assms(1)] l0] .
  have r: "read_args (h @ [CArgs v]) (length h) = Some v"
    by (simp add: read_args_def lookup_new)
  have cp: "copying h0 (h @ [CArgs v]) ((a, length h) # m)"
    by (rule copying_alloc [OF assms(1) _ same_value_args [OF assms(2) r]]) simp
  have c: "copy_args h m a = Some (length h, h @ [CArgs v], (a, length h) # m)"
    by (simp add: copy_args_def None l alloc_def)
  show ?thesis
    using c cp r copying_length [OF assms(1)] by simp
qed

lemma copy_info_ok:
  assumes "copying h0 h m" and "read_info h0 a = Some v"
  shows "\<exists>a' h' m'. copy_info h m a = Some (a', h', m') \<and> copying h0 h' m' \<and> prefix h h'
           \<and> length h0 \<le> a' \<and> a' < length h' \<and> read_info h' a' = Some v"
proof (cases "map_of m a")
  case (Some a')
  note hit = memo_hit [OF assms(1) Some]
  have r: "read_info h a' = Some v"
    using hit assms(2) by (blast dest: same_valueD(7))
  have c: "copy_info h m a = Some (a', h, m)"
    by (simp add: copy_info_def Some)
  show ?thesis
    using c assms(1) hit r by simp
next
  case None
  from assms(2) obtain u p f g where l0: "lookup h0 a = Some (CInfo u p f)"
    and g: "read_func h0 f = Some g"
    and v: "v = \<lparr>usage = u, is_primitive = p, func = g\<rparr>"
    by (auto simp: read_info_def split: option.splits cell.splits)
  have l: "lookup h a = Some (CInfo u p f)"
    using lookup_prefix [OF copying_prefix [OF assms(1)] l0] .
  have gh: "read_func h f = Some g"
    using read_func_prefix [OF copying_prefix [OF assms(1)] g] .
  let ?c = "CInfo u p f"
  have gn: "read_func (h @ [?c]) f = Some g"
    by (rule read_func_prefix [OF _ gh]) simp
  have r: "read_info (h @ [?c]) (length h) = Some v"
    by (simp add: read_info_def lookup_new gn v)
  have cp: "copying h0 (h @ [?c]) ((a, length h) # m)"
    by (rule copying_alloc [OF assms(1) _ same_value_info [OF assms(2) r]]) (simp add: gh)
  have c: "copy_info h m a = Some (length h, h @ [?c], (a, length h) # m)"
    by (simp add: copy_info_def None l alloc_def)
  show ?thesis
    using c cp r copying_length [OF assms(1)] by simp
qed

lemma copy_action_ok:
  assumes "copying h0 h m" and "read_action h0 a = Some v"
  shows "\<exists>a' h' m'. copy_action h m a = Some (a', h', m') \<and> copying h0 h' m' \<and> prefix h h'
           \<and> length h0 \<le> a' \<and> a' < length h' \<and> read_action h' a' = Some v"
proof (cases "map_of m a")
  case (Some a')
  note hit = memo_hit [OF assms(1) Some]
  have r: "read_action h a' = Some v"
    using hit assms(2) by (blast dest: same_valueD(2))
  have c: "copy_action h m a = Some (a', h, m)"
    by (simp add: copy_action_def Some)
  show ?thesis
    using c assms(1) hit r by simp
next
  case None
  from assms(2) obtain n x where l0: "lookup h0 a = Some (CAction n x)"
    by (auto simp: read_action_def split: option.splits cell.splits)
  have l: "lookup h a = Some (CAction n x)"
    using lookup_prefix [OF copying_prefix [OF assms(1)] l0] .
  show ?thesis
  proof (cases x)
    case (Inl raw)
    have v: "v = \<lparr>name = n, args = NotMapping raw\<rparr>"
      using assms(2) l0 Inl by (simp add: read_action_def)
    have r: "read_action (h @ [CAction n (Inl raw)]) (length h) = Some v"
      by (simp add: read_action_def lookup_new v)
    have cp: "copying h0 (h @ [CAction n (Inl raw)]) ((a, length h) # m)"
      by (rule copying_alloc [OF assms(1) _ same_value_action [OF assms(2) r]]) simp
    have c: "copy_action h m a =
        Some (length h, h @ [CAction n (Inl raw)], (a, length h) # m)"
      by (simp add: copy_action_def None l Inl alloc_def)
    show ?thesis
      using c cp r copying_length [OF assms(1)] by simp
  next
    case (Inr ar)
    from assms(2) l0 Inr obtain d where d: "read_args h0 ar = Some d"
      and v: "v = \<lparr>name = n, args = Mapping d\<rparr>"
      by (auto simp: read_action_def split: option.splits)
    from copy_args_ok [OF assms(1) d] obtain ar' h' m' where
      k: "copy_args h m ar = Some (ar', h', m')" "copying h0 h' m'" "prefix h h'"
        "length h0 \<le> ar'" "ar' < length h'" "read_args h' ar' = Some d"
      by blast
    let ?c = "CAction n (Inr ar')"
    have rd: "read_args (h' @ [?c]) ar' = Some d"
      by (rule read_args_prefix [OF _ k(6)]) simp
    have r: "read_action (h' @ [?c]) (length h') = Some v"
      by (simp add: read_action_def lookup_new rd v)
    have cp: "copying h0 (h' @ [?c]) ((a, length h') # m')"
      by (rule copying_alloc [OF k(2) _ same_value_action [OF assms(2) r]]) (simp add: k(4) k(5))
    have c: "copy_action h m a = Some (length h', h' @ [?c], (a, length h') # m')"
      by (simp add: copy_action_def None l Inr k(1) alloc_def)
    have p: "prefix h (h' @ [?c])"
      using k(3) by (auto simp: prefix_def)
    show ?thesis
      using c cp r p copying_length [OF k(2)] by simp
  qed
qed

lemma copy_step_ok:
  assumes "copying h0 h m" and "read_step h0 a = Some v"
  shows "\<exists>a' h' m'. copy_step h m a = Some (a', h', m') \<and> copying h0 h' m' \<and> prefix h h'
           \<and> length h0 \<le> a' \<and> a' < length h' \<and> read_step h' a' = Some v"
proof (cases "map_of m a")
  case (Some a')
  note hit = memo_hit [OF assms(1) Some]
  have r: "read_step h a' = Some v"
    using hit assms(2) by (blast dest: same_valueD(3))
  have c: "copy_step h m a = Some (a', h, m)"
    by (simp add: copy_step_def Some)
  show ?thesis
    using c assms(1) hit r by simp
next
  case None
  from assms(2) obtain ac ob ts x where l0: "lookup h0 a = Some (CStep ac ob ts)"
    and x: "read_action h0 ac = Some x"
    and v: "v = \<lparr>action = x, observation = ob, timestamp = ts\<rparr>"
    by (auto simp: read_step_def split: option.splits cell.splits)
  have l: "lookup h a = Some (CStep ac ob ts)"
    using lookup_prefix [OF copying_prefix [OF assms(1)] l0] .
  from copy_action_ok [OF assms(1) x] obtain ac' h' m' where
    k: "copy_action h m ac = Some (ac', h', m')" "copying h0 h' m'" "prefix h h'"
      "length h0 \<le> ac'" "ac' < length h'" "read_action h' ac' = Some x"
    by blast
  let ?c = "CStep ac' ob ts"
  have rd: "read_action (h' @ [?c]) ac' = Some x"
    by (rule read_action_prefix [OF _ k(6)]) simp
  have r: "read_step (h' @ [?c]) (length h') = Some v"
    by (simp add: read_step_def lookup_new rd v)
  have cp: "copying h0 (h' @ [?c]) ((a, length h') # m')"
    by (rule copying_alloc [OF k(2) _ same_value_step [OF assms(2) r]]) (simp add: k(4) k(5))
  have c: "copy_step h m a = Some (length h', h' @ [?c], (a, length h') # m')"
    by (simp add: copy_step_def None l k(1) alloc_def)
  have p: "prefix h (h' @ [?c])"
    using k(3) by (auto simp: prefix_def)
  show ?thesis
    using c cp r p copying_length [OF k(2)] by simp
qed

lemma copy_steps_ok:
  "copying h0 h m \<Longrightarrow> read_steps h0 as = Some vs \<Longrightarrow>
     \<exists>as' h' m'. copy_steps h m as = Some (as', h', m') \<and> copying h0 h' m' \<and> prefix h h'
        \<and> (\<forall>b \<in> set as'. length h0 \<le> b \<and> b < length h') \<and> read_steps h' as' = Some vs"
proof (induction as arbitrary: h m vs)
  case Nil
  then show ?case by simp
next
  case (Cons a as)
  from Cons.prems(2) obtain s ss where s: "read_step h0 a = Some s"
    and ss: "read_steps h0 as = Some ss" and vs: "vs = s # ss"
    by (auto split: option.splits)
  from copy_step_ok [OF Cons.prems(1) s] obtain a' h1 m1 where
    k: "copy_step h m a = Some (a', h1, m1)" "copying h0 h1 m1" "prefix h h1"
      "length h0 \<le> a'" "a' < length h1" "read_step h1 a' = Some s"
    by blast
  from Cons.IH [OF k(2) ss] obtain as' h2 m2 where
    j: "copy_steps h1 m1 as = Some (as', h2, m2)" "copying h0 h2 m2" "prefix h1 h2"
      "\<forall>b \<in> set as'. length h0 \<le> b \<and> b < length h2" "read_steps h2 as' = Some ss"
    by blast
  have c: "copy_steps h m (a # as) = Some (a' # as', h2, m2)"
    by (simp add: k(1) j(1))
  have p: "prefix h h2"
    using k(3) j(3) by (rule prefix_order.trans)
  have b: "a' < length h2"
    using k(5) prefix_length_le [OF j(3)] by simp
  have r: "read_steps h2 (a' # as') = Some vs"
    using read_step_prefix [OF j(3) k(6)] j(5) vs by simp
  show ?case
    using c j(2) p k(4) b j(4) r by simp
qed

lemma copy_list_ok:
  assumes "copying h0 h m" and "read_list h0 a = Some v"
  shows "\<exists>a' h' m'. copy_list h m a = Some (a', h', m') \<and> copying h0 h' m' \<and> prefix h h'
           \<and> length h0 \<le> a' \<and> a' < length h' \<and> read_list h' a' = Some v"
proof (cases "map_of m a")
  case (Some a')
  note hit = memo_hit [OF assms(1) Some]
  have r: "read_list h a' = Some v"
    using hit assms(2) by (blast dest: same_valueD(4))
  have c: "copy_list h m a = Some (a', h, m)"
    by (simp add: copy_list_def Some)
  show ?thesis
    using c assms(1) hit r by simp
next
  case None
  from assms(2) obtain as where l0: "lookup h0 a = Some (CList as)"
    and x: "read_steps h0 as = Some v"
    by (auto simp: read_list_def split: option.splits cell.splits)
  have l: "lookup h a = Some (CList as)"
    using lookup_prefix [OF copying_prefix [OF assms(1)] l0] .
  from copy_steps_ok [OF assms(1) x] obtain as' h' m' where
    k: "copy_steps h m as = Some (as', h', m')" "copying h0 h' m'" "prefix h h'"
      "\<forall>b \<in> set as'. length h0 \<le> b \<and> b < length h'" "read_steps h' as' = Some v"
    by blast
  let ?c = "CList as'"
  have rd: "read_steps (h' @ [?c]) as' = Some v"
    by (rule read_steps_prefix [OF _ k(5)]) simp
  have r: "read_list (h' @ [?c]) (length h') = Some v"
    by (simp add: read_list_def lookup_new rd)
  have cp: "copying h0 (h' @ [?c]) ((a, length h') # m')"
    by (rule copying_alloc [OF k(2) _ same_value_list [OF assms(2) r]]) (simp add: k(4))
  have c: "copy_list h m a = Some (length h', h' @ [?c], (a, length h') # m')"
    by (simp add: copy_list_def None l k(1) alloc_def)
  have p: "prefix h (h' @ [?c])"
    using k(3) by (auto simp: prefix_def)
  show ?thesis
    using c cp r p copying_length [OF k(2)] by simp
qed

lemma copy_entries_ok:
  "copying h0 h m \<Longrightarrow> read_entries h0 kvs = Some vs \<Longrightarrow>
     \<exists>kvs' h' m'. copy_entries h m kvs = Some (kvs', h', m') \<and> copying h0 h' m' \<and> prefix h h'
        \<and> (\<forall>b \<in> set (map snd kvs'). length h0 \<le> b \<and> b < length h')
        \<and> read_entries h' kvs' = Some vs"
proof (induction kvs arbitrary: h m vs)
  case Nil
  then show ?case by simp
next
  case (Cons kv kvs)
  obtain key a where kv: "kv = (key, a)"
    by (cases kv)
  from Cons.prems(2) kv obtain x xs where x: "read_info h0 a = Some x"
    and xs: "read_entries h0 kvs = Some xs" and vs: "vs = (key, x) # xs"
    by (auto split: option.splits)
  from copy_info_ok [OF Cons.prems(1) x] obtain a' h1 m1 where
    k: "copy_info h m a = Some (a', h1, m1)" "copying h0 h1 m1" "prefix h h1"
      "length h0 \<le> a'" "a' < length h1" "read_info h1 a' = Some x"
    by blast
  from Cons.IH [OF k(2) xs] obtain kvs' h2 m2 where
    j: "copy_entries h1 m1 kvs = Some (kvs', h2, m2)" "copying h0 h2 m2" "prefix h1 h2"
      "\<forall>b \<in> set (map snd kvs'). length h0 \<le> b \<and> b < length h2"
      "read_entries h2 kvs' = Some xs"
    by blast
  have c: "copy_entries h m (kv # kvs) = Some ((key, a') # kvs', h2, m2)"
    by (simp add: kv k(1) j(1))
  have p: "prefix h h2"
    using k(3) j(3) by (rule prefix_order.trans)
  have b: "a' < length h2"
    using k(5) prefix_length_le [OF j(3)] by simp
  have r: "read_entries h2 ((key, a') # kvs') = Some vs"
    using read_info_prefix [OF j(3) k(6)] j(5) vs by simp
  show ?case
    using c j(2) p k(4) b j(4) r by simp
qed

lemma copy_infos_ok:
  assumes "copying h0 h m" and "read_infos h0 a = Some v"
  shows "\<exists>a' h' m'. copy_infos h m a = Some (a', h', m') \<and> copying h0 h' m' \<and> prefix h h'
           \<and> length h0 \<le> a' \<and> a' < length h' \<and> read_infos h' a' = Some v"
proof (cases "map_of m a")
  case (Some a')
  note hit = memo_hit [OF assms(1) Some]
  have r: "read_infos h a' = Some v"
    using hit assms(2) by (blast dest: same_valueD(5))
  have c: "copy_infos h m a = Some (a', h, m)"
    by (simp add: copy_infos_def Some)
  show ?thesis
    using c assms(1) hit r by simp
next
  case None
  from assms(2) obtain kvs where l0: "lookup h0 a = Some (CInfos kvs)"
    and x: "read_entries h0 kvs = Some v"
    by (auto simp: read_infos_def split: option.splits cell.splits)
  have l: "lookup h a = Some (CInfos kvs)"
    using lookup_prefix [OF copying_prefix [OF assms(1)] l0] .
  from copy_entries_ok [OF assms(1) x] obtain kvs' h' m' where
    k: "copy_entries h m kvs = Some (kvs', h', m')" "copying h0 h' m'" "prefix h h'"
      "\<forall>b \<in> set (map snd kvs'). length h0 \<le> b \<and> b < length h'"
      "read_entries h' kvs' = Some v"
    by blast
  let ?c = "CInfos kvs'"
  have rd: "read_entries (h' @ [?c]) kvs' = Some v"
    by (rule read_entries_prefix [OF _ k(5)]) simp
  have r: "read_infos (h' @ [?c]) (length h') = Some v"
    by (simp add: read_infos_def lookup_new rd)
  have cp: "copying h0 (h' @ [?c]) ((a, length h') # m')"
    by (rule copying_alloc [OF k(2) _ same_value_infos [OF assms(2) r]]) (use k(4) in auto)
  have c: "copy_infos h m a = Some (length h', h' @ [?c], (a, length h') # m')"
    by (simp add: copy_infos_def None l k(1) alloc_def)
  have p: "prefix h (h' @ [?c])"
    using k(3) by (auto simp: prefix_def)
  show ?thesis
    using c cp r p copying_length [OF k(2)] by simp
qed

lemma copy_trace_ok:
  assumes "copying h0 h m" and "read_trace h0 a = Some v"
  shows "\<exists>a' h' m'. copy_trace h m a = Some (a', h', m') \<and> copying h0 h' m' \<and> prefix h h'
           \<and> length h0 \<le> a' \<and> a' < length h' \<and> read_trace h' a' = Some v"
proof (cases "map_of m a")
  case (Some a')
  note hit = memo_hit [OF assms(1) Some]
  have r: "read_trace h a' = Some v"
    using hit assms(2) by (blast dest: same_valueD(6))
  have c: "copy_trace h m a = Some (a', h, m)"
    by (simp add: copy_trace_def Some)
  show ?thesis
    using c assms(1) hit r by simp
next
  case None
  from assms(2) obtain s l i d ss ls infos where l0: "lookup h0 a = Some (CTrace s l i d)"
    and x: "read_list h0 s = Some ss" "read_list h0 l = Some ls" "read_infos h0 i = Some infos"
    and v: "v = \<lparr>steps = ss, low_level_steps = ls, task_description = d, action_infos = infos\<rparr>"
    by (auto simp: read_trace_def split: option.splits cell.splits)
  have lk: "lookup h a = Some (CTrace s l i d)"
    using lookup_prefix [OF copying_prefix [OF assms(1)] l0] .
  from copy_list_ok [OF assms(1) x(1)] obtain s' h1 m1 where
    k1: "copy_list h m s = Some (s', h1, m1)" "copying h0 h1 m1" "prefix h h1"
      "length h0 \<le> s'" "s' < length h1" "read_list h1 s' = Some ss"
    by blast
  from copy_list_ok [OF k1(2) x(2)] obtain l' h2 m2 where
    k2: "copy_list h1 m1 l = Some (l', h2, m2)" "copying h0 h2 m2" "prefix h1 h2"
      "length h0 \<le> l'" "l' < length h2" "read_list h2 l' = Some ls"
    by blast
  from copy_infos_ok [OF k2(2) x(3)] obtain i' h3 m3 where
    k3: "copy_infos h2 m2 i = Some (i', h3, m3)" "copying h0 h3 m3" "prefix h2 h3"
      "length h0 \<le> i'" "i' < length h3" "read_infos h3 i' = Some infos"
    by blast
  let ?c = "CTrace s' l' i' d"
  have p13: "prefix h1 h3"
    using k2(3) k3(3) by (rule prefix_order.trans)
  have p3: "prefix h3 (h3 @ [?c])"
    by simp
  have r1: "read_list (h3 @ [?c]) s' = Some ss"
    using read_list_prefix [OF p3 read_list_prefix [OF p13 k1(6)]] .
  have r2: "read_list (h3 @ [?c]) l' = Some ls"
    using read_list_prefix [OF p3 read_list_prefix [OF k3(3) k2(6)]] .
  have r3: "read_infos (h3 @ [?c]) i' = Some infos"
    using read_infos_prefix [OF p3 k3(6)] .
  have r: "read_trace (h3 @ [?c]) (length h3) = Some v"
    by (simp add: read_trace_def lookup_new r1 r2 r3 v)
  have b: "s' < length h3" "l' < length h3"
    using k1(5) k2(5) prefix_length_le [OF p13] prefix_length_le [OF k3(3)] by simp_all
  have cp: "copying h0 (h3 @ [?c]) ((a, length h3) # m3)"
    by (rule copying_alloc [OF k3(2) _ same_value_trace [OF assms(2) r]])
      (simp add: k1(4) k2(4) k3(4) k3(5) b)
  have c: "copy_trace h m a = Some (length h3, h3 @ [?c], (a, length h3) # m3)"
    by (simp add: copy_trace_def None lk k1(1) k2(1) k3(1) alloc_def)
  have p: "prefix h (h3 @ [?c])"
    using prefix_order.trans [OF k1(3) p13] by (auto simp: prefix_def)
  show ?thesis
    using c cp r p copying_length [OF k3(2)] by simp
qed

lemma copying_start: "copying h h []"
  by (simp add: copying_def memo_ok_def shares_only_functions_def)

lemma mutate_on_copy:
  "list_all (on_copy (length h0)) ms \<Longrightarrow> prefix h0 h \<Longrightarrow> prefix h0 (foldl mutate h ms)"
proof (induction ms arbitrary: h)
  case Nil
  then show ?case by simp
next
  case (Cons x ms)
  have "prefix h0 (mutate h x)"
  proof (cases x)
    case (Write a c)
    with Cons.prems(1) have a: "length h0 \<le> a"
      by simp
    from Cons.prems(2) obtain zs where zs: "h = h0 @ zs"
      by (auto simp: prefix_def)
    have "(h0 @ zs)[a := c] = h0 @ zs[a - length h0 := c]"
      using a by (simp add: list_update_append)
    then show ?thesis
      using Write zs by simp
  next
    case (Create c)
    with Cons.prems(2) show ?thesis
      by (auto simp: prefix_def)
  qed
  with Cons.IH [of "mutate h x"] Cons.prems(1) show ?case
    by simp
qed

subsection \<open>The trace property\<close>

lemmas heap_defs = lookup_def read_trace_def read_list_def read_infos_def read_info_def
  read_func_def read_step_def read_action_def read_args_def

lemma demo_read: "read_trace demo_heap 8 = Some demo_trace"
  by (simp add: heap_defs demo_heap_def demo_trace_def demo_step_def run_script_def
      demo_entry_def)

lemma demo_copied: "trace_property demo_heap 8 = Some (16, demo_copy)"
  by (simp add: trace_property_def copy_trace_def copy_list_def copy_infos_def copy_info_def
      copy_step_def copy_action_def copy_args_def alloc_def lookup_def demo_heap_def
      demo_copy_def)

text \<open>
  The claim C10 as written fails: the copy of an \<^verbatim>\<open>ActionInfo\<close> refers to the function
  object of the original, and a caller that follows the returned trace to it and changes
  it changes what \<^verbatim>\<open>execute\<close> of the environment returns.
\<close>

theorem shared_function_counterexample:
  "trace_property demo_heap 8 = Some (16, demo_copy)
   \<and> lookup demo_copy 16 = Some (CTrace 12 13 15 ''task'')
   \<and> lookup demo_copy 15 = Some (CInfos [(''Execute Script'', 14)])
   \<and> lookup demo_copy 14 = Some (CInfo [(''script_name'', ''a valid python script name'')] True 5)
   \<and> lookup demo_heap 5 = Some (CFunc (returning ''ok''))
   \<and> map_option (\<lambda>e. outcome (execute e run_script (clock 1)))
        (env_at (demo_env (returning ''ok'') []) demo_heap 8) = Some (Inr ''ok'')
   \<and> map_option (\<lambda>e. outcome (execute e run_script (clock 1)))
        (env_at (demo_env (returning ''ok'') [])
           (mutate demo_copy (Write 5 (CFunc (returning ''changed'')))) 8) = Some (Inr ''changed'')"
proof -
  have l: "lookup demo_copy 16 = Some (CTrace 12 13 15 ''task'')"
    "lookup demo_copy 15 = Some (CInfos [(''Execute Script'', 14)])"
    "lookup demo_copy 14 = Some (CInfo [(''script_name'', ''a valid python script name'')] True 5)"
    "lookup demo_heap 5 = Some (CFunc (returning ''ok''))"
    by (simp_all add: lookup_def demo_copy_def demo_heap_def)
  have before: "map_option (\<lambda>e. outcome (execute e run_script (clock 1)))
        (env_at (demo_env (returning ''ok'') []) demo_heap 8) = Some (Inr ''ok'')"
    by (simp add: env_at_def demo_read demo_trace_def execute_def is_final_def Let_def
        demo_defs2)
  have w: "mutate demo_copy (Write 5 (CFunc (returning ''changed''))) =
      (demo_copy[5 := CFunc (returning ''changed'')])"
    by (simp add: demo_copy_def demo_heap_def)
  have r: "read_trace (demo_copy[5 := CFunc (returning ''changed'')]) 8 =
      Some (demo_trace\<lparr>action_infos := [(''Execute Script'', demo_entry (returning ''changed''))]\<rparr>)"
    by (simp add: heap_defs demo_copy_def demo_heap_def demo_trace_def demo_step_def
        run_script_def demo_entry_def)
  have after: "map_option (\<lambda>e. outcome (execute e run_script (clock 1)))
        (env_at (demo_env (returning ''ok'') [])
           (mutate demo_copy (Write 5 (CFunc (returning ''changed'')))) 8) = Some (Inr ''changed'')"
    unfolding w
    by (simp add: env_at_def r demo_trace_def execute_def is_final_def Let_def demo_defs2)
  show ?thesis
    using demo_copied l before after by (intro conjI)
qed

text \<open>
  C10 (amended): the \<^verbatim>\<open>trace\<close> property returns a deep copy of everything but the
  callables. When the store holds a trace at \<open>t\<close>, the copy succeeds and returns a new
  object that denotes the same trace; the objects that existed before are unchanged, and
  the returned object and the objects it refers to are objects created by the copy,
  except for the function objects of the descriptors, which are those of the registry.
  Whatever sequence of mutations a caller applies to the objects created by the copy (or
  to objects created later), the internal trace at \<open>t\<close> still denotes the same value,
  and \<^verbatim>\<open>execute\<close>, \<^verbatim>\<open>is_final\<close> and \<^verbatim>\<open>save\<close> of the environment give the same
  results.
\<close>

theorem trace_property_deep_copy:
  assumes "read_trace h t = Some tr"
  shows "\<exists>t' h'. trace_property h t = Some (t', h')
     \<and> read_trace h' t' = Some tr
     \<and> length h \<le> t' \<and> t' < length h'
     \<and> prefix h h'
     \<and> shares_only_functions (length h) h'
     \<and> (\<forall>ms. list_all (on_copy (length h)) ms \<longrightarrow>
          read_trace (foldl mutate h' ms) t = Some tr
          \<and> env_at e (foldl mutate h' ms) t = env_at e h t
          \<and> map_option (\<lambda>e'. (execute e' a r, is_final e' now, save e'))
               (env_at e (foldl mutate h' ms) t) =
             map_option (\<lambda>e'. (execute e' a r, is_final e' now, save e')) (env_at e h t))"
proof -
  from copy_trace_ok [OF copying_start assms] obtain t' h' m' where
    k: "copy_trace h [] t = Some (t', h', m')" "copying h h' m'" "prefix h h'"
      "length h \<le> t'" "t' < length h'" "read_trace h' t' = Some tr"
    by blast
  have p: "trace_property h t = Some (t', h')"
    by (simp add: trace_property_def k(1))
  have s: "shares_only_functions (length h) h'"
    using k(2) by (simp add: copying_def)
  have f: "read_trace (foldl mutate h' ms) t = Some tr" if "list_all (on_copy (length h)) ms" for ms
    using read_trace_prefix [OF mutate_on_copy [OF that k(3)] assms] .
  have g: "env_at e (foldl mutate h' ms) t = env_at e h t"
    if "list_all (on_copy (length h)) ms" for ms
    by (simp add: env_at_def f [OF that] assms)
  show ?thesis
    using p k(3-6) s f g by simp
qed

text \<open>
  The theorem on a store with a trace of one step: the caller overwrites the returned
  trace object and another new object, and creates one.
\<close>

theorem trace_property_deep_copy_witness:
  "\<exists>t' h'. trace_property demo_heap 8 = Some (t', h')
     \<and> read_trace h' t' = Some demo_trace
     \<and> read_trace (foldl mutate h' [Write t' (CTrace 0 0 0 []), Write 9 (CArgs []), Create (CList [])]) 8
         = Some demo_trace"
proof -
  have n: "length demo_heap = 9"
    by (simp add: demo_heap_def)
  from trace_property_deep_copy [OF demo_read] obtain t' h' where
    k: "trace_property demo_heap 8 = Some (t', h')" "read_trace h' t' = Some demo_trace"
      "length demo_heap \<le> t'"
      "\<forall>ms. list_all (on_copy (length demo_heap)) ms \<longrightarrow>
          read_trace (foldl mutate h' ms) 8 = Some demo_trace"
    by blast
  have "list_all (on_copy (length demo_heap))
      [Write t' (CTrace 0 0 0 []), Write 9 (CArgs []), Create (CList [])]"
    using k(3) n by simp
  with k(4) have "read_trace
      (foldl mutate h' [Write t' (CTrace 0 0 0 []), Write 9 (CArgs []), Create (CList [])]) 8
        = Some demo_trace"
    by blast
  with k(1) k(2) show ?thesis
    by blast
qed

end
